theory Spec2Isabelle
  imports Complex_Main "HOL-Library.Monad_Syntax" "HOL-Library.Log_Nat"
begin

chapter \<open>The model\<close>

section \<open>Secret-key handles (\<^verbatim>\<open>Ctxt.h\<close>, class \<^verbatim>\<open>SKHandle\<close>)\<close>

text \<open>
  A handle names the secret-key polynomial \<open>s_k^a(X^t)\<close>. The three fields are C++
  \<^verbatim>\<open>long\<close>s; they are modelled as mathematical integers (the only arithmetic on
  them is the sum of two powers of \<open>s\<close>, whose overflow is undefined in the source).
\<close>

record SKHandle =
  powerOfS :: int
  powerOfX :: int
  secretKeyID :: int

definition isOne :: "SKHandle \<Rightarrow> bool" where
  "isOne h = (powerOfS h = 0)"

text \<open>
  \<^verbatim>\<open>bool SKHandle::mul(const SKHandle& a, const SKHandle& b)\<close> writes into
  \<^verbatim>\<open>*this\<close> and returns a flag. The model takes the old value of \<^verbatim>\<open>*this\<close>
  first and returns the flag together with the new value of \<^verbatim>\<open>*this\<close>: the
  error branches overwrite the key id only, the other two fields keep what
  \<^verbatim>\<open>*this\<close> held before the call.
\<close>

definition mul :: "SKHandle \<Rightarrow> SKHandle \<Rightarrow> SKHandle \<Rightarrow> bool \<times> SKHandle" where
  "mul this a b =
     (if isOne a then (0 \<le> secretKeyID b, b)
      else if isOne b then (0 \<le> secretKeyID a, a)
      else if secretKeyID a = - 1 \<or> secretKeyID b = - 1
        then (False, this\<lparr>secretKeyID := - 1\<rparr>)
      else if secretKeyID a \<noteq> secretKeyID b
        then (False, this\<lparr>secretKeyID := - 1\<rparr>)
      else if powerOfX a \<noteq> powerOfX b
        then (False, this\<lparr>secretKeyID := - 1\<rparr>)
      else (True, \<lparr>powerOfS = powerOfS a + powerOfS b,
                   powerOfX = powerOfX a,
                   secretKeyID = secretKeyID a\<rparr>))"

section \<open>Errors and console output\<close>

text \<open>
  Every \<^verbatim>\<open>throw\<close> and failed assertion of the source is a value of type
  \<open>error\<close>; the string is the message of the source. \<open>NoiseBoundExceeded\<close> is the
  \<^verbatim>\<open>LogicError\<close> thrown by the noise check of the two bootstrapping routines (its
  message ends with the printed ratio, which is the argument). \<open>LengthError\<close> is what
  \<^verbatim>\<open>std::vector\<close>'s constructor throws for a negative size, \<open>InputError\<close> is NTL
  rejecting a string that is no integer (with the string), \<open>Exit\<close> is a call
  of \<^verbatim>\<open>exit\<close>, and \<open>Undefined\<close> marks an execution the C++ standard leaves
  undefined (an access outside a vector, an integer division by zero).
\<close>

datatype error =
    LogicError string
  | NoiseBoundExceeded real
  | RuntimeError string
  | InvalidArgument string
  | InputError string
  | LengthError
  | Exit int
  | Undefined string

text \<open>
  What the routines print: the two lines of \<^verbatim>\<open>extractDigitsThin\<close>, the lines of the
  built-in digit extraction, the warning that replaces the noise exception in a
  \<^verbatim>\<open>HELIB_DEBUG\<close> build (with the ratio), and the block of timing and capacity
  figures that ends a bootstrapping (its numbers are wall-clock times and are not
  modelled).
\<close>

datatype message =
    WarnUnfortunateParameters int int
  | StartingBuiltinDigitExtraction
  | BuiltinOutput string
  | NoiseWarning real
  | Statistics

section \<open>Ciphertext operations used by the digit extraction\<close>

text \<open>
  The methods of \<^verbatim>\<open>Ctxt\<close> are declared in \<^verbatim>\<open>Ctxt.h\<close> and implemented outside
  the files at hand, so the digit extraction is modelled over any ciphertext type \<open>'c\<close>
  and a record of the operations it calls. An operation takes the object it is called
  on as its last argument and returns the updated object:
  \<^verbatim>\<open>tmp1.addCtxt(tmp2, true)\<close> is \<open>addCtxt ops tmp2 True tmp1\<close>. \<open>getP\<close> is
  \<^verbatim>\<open>ctxt.getContext().getP()\<close>; all ciphertexts of one computation share their context.
\<close>

record 'c ctxt_ops =
  getP :: int
  square :: "'c \<Rightarrow> 'c"
  multByConstant :: "int \<Rightarrow> 'c \<Rightarrow> 'c"
  addCtxt :: "'c \<Rightarrow> bool \<Rightarrow> 'c \<Rightarrow> 'c"
  multiplyBy :: "'c \<Rightarrow> 'c \<Rightarrow> 'c"
  addConstant :: "int \<Rightarrow> 'c \<Rightarrow> 'c"
  divideByP :: "'c \<Rightarrow> 'c"
  negate :: "'c \<Rightarrow> 'c"

text \<open>
  The digit extraction calls two more routines that no claim here looks into; they
  extend the record. \<open>rowComputationComposition\<close> (\<^verbatim>\<open>recryption.cpp\<close>, the table
  lookup followed by the Paterson-Stockmeyer evaluator \<^verbatim>\<open>customPolyEval\<close>) takes the
  input ciphertext, the vector of results so far, the triangle size, the row size, the
  lazy flag and \<open>e_inner\<close>, and returns the extended vector or the message of the
  assertion that failed (a \<^verbatim>\<open>LogicError\<close>). \<open>builtinExtractDigits\<close> is the \<^verbatim>\<open>else\<close> branch of
  \<^verbatim>\<open>extractDigitsThin\<close> after its first output line (HElib's own digit extraction);
  it takes the ciphertext, \<open>botHigh\<close>, \<open>r\<close> and \<open>ePrime\<close> and returns the lines it
  prints and the new ciphertext.
\<close>

record 'c extract_env = "'c ctxt_ops" +
  rowComputationComposition ::
    "'c \<Rightarrow> ('c \<times> int) list \<Rightarrow> int \<Rightarrow> int \<Rightarrow> bool \<Rightarrow> int \<Rightarrow> string + ('c \<times> int) list"
  builtinExtractDigits :: "'c \<Rightarrow> int \<Rightarrow> int \<Rightarrow> int \<Rightarrow> string list \<times> 'c"

text \<open>
  Modelled from the spec: the ciphertext arithmetic of \<^verbatim>\<open>Ctxt.cpp\<close>, which is not
  among the files, acting on the plaintext a ciphertext carries. By the additive and
  multiplicative homomorphism of section 8 of the specification the plaintext of a sum,
  a product, a negation or a constant multiple is the sum, product, negation or
  multiple of the plaintexts, in the plaintext ring \<open>'a\<close>. The prime, the division
  by \<open>p\<close> and the two routines above are parameters.
\<close>

definition plaintext_env ::
  "int \<Rightarrow> ('a \<Rightarrow> 'a)
     \<Rightarrow> ('a \<Rightarrow> ('a \<times> int) list \<Rightarrow> int \<Rightarrow> int \<Rightarrow> bool \<Rightarrow> int \<Rightarrow> string + ('a \<times> int) list)
     \<Rightarrow> ('a \<Rightarrow> int \<Rightarrow> int \<Rightarrow> int \<Rightarrow> string list \<times> 'a)
     \<Rightarrow> ('a::comm_ring_1) extract_env" where
  "plaintext_env p divP composition builtin =
     \<lparr>getP = p,
      square = (\<lambda>x. x * x),
      multByConstant = (\<lambda>c x. of_int c * x),
      addCtxt = (\<lambda>other negative x. if negative then x - other else x + other),
      multiplyBy = (\<lambda>other x. x * other),
      addConstant = (\<lambda>c x. x + of_int c),
      divideByP = divP,
      negate = (\<lambda>x. - x),
      rowComputationComposition = composition,
      builtinExtractDigits = builtin\<rparr>"

section \<open>Row computation (\<^verbatim>\<open>recryption.cpp\<close>)\<close>

text \<open>
  \<open>on_first i f v\<close> is \<^verbatim>\<open>std::get<0>(v[i]).f()\<close>: the method is applied in place to
  the ciphertext of the \<open>i\<close>-th pair.
\<close>

definition on_first :: "nat \<Rightarrow> ('c \<Rightarrow> 'c) \<Rightarrow> ('c \<times> int) list \<Rightarrow> ('c \<times> int) list" where
  "on_first i f v = v[i := (f (fst (v ! i)), snd (v ! i))]"

text \<open>
  \<^verbatim>\<open>rowComputationMultivariate(ctxt, ctxtEval, rowSize)\<close>: the four blocks of the
  source in their order, each pushing a copy of an earlier result and then updating
  it in place. The thresholds increase, so every index read has been pushed before.
\<close>

definition rowComputationMultivariate ::
  "('c, 'm) ctxt_ops_scheme \<Rightarrow> 'c \<Rightarrow> ('c \<times> int) list \<Rightarrow> int \<Rightarrow> ('c \<times> int) list" where
  "rowComputationMultivariate ops ctxt ctxtEval rowSize =
    (let init_length = length ctxtEval;
         ev1 = (if 2 \<le> rowSize
                then on_first (init_length + 0) (square ops) (ctxtEval @ [(ctxt, 2)])
                else ctxtEval);
         ev2 = (if 3 \<le> rowSize
                then on_first (init_length + 1) (square ops)
                       (ev1 @ [(fst (ev1 ! (init_length + 0)), 4)])
                else ev1);
         ev3 = (if 5 \<le> rowSize
                then (let ev = on_first (init_length + 2) (multByConstant ops 112)
                                 (ev2 @ [(fst (ev2 ! (init_length + 0)), 8)]);
                          tmp1 = fst (ev ! (init_length + 0));
                          tmp1 = multByConstant ops 94 tmp1;
                          tmp2 = fst (ev ! (init_length + 1));
                          tmp2 = multByConstant ops 121 tmp2;
                          tmp1 = addCtxt ops tmp2 False tmp1;
                          tmp1 = square ops tmp1
                      in on_first (init_length + 2) (addCtxt ops tmp1 False) ev)
                else ev2);
         ev4 = (if 9 \<le> rowSize
                then (let ev = on_first (init_length + 3) (multByConstant ops 11136)
                                 (ev3 @ [(fst (ev3 ! (init_length + 1)), 16)]);
                          tmp1 = fst (ev ! (init_length + 1));
                          tmp1 = multByConstant ops 15364 tmp1;
                          tmp2 = fst (ev ! (init_length + 2));
                          tmp2 = multByConstant ops 14115 tmp2;
                          tmp1 = addCtxt ops tmp2 True tmp1;
                          tmp2 = fst (ev ! (init_length + 0));
                          tmp2 = multByConstant ops 28504 tmp2;
                          tmp3 = fst (ev ! (init_length + 1));
                          tmp3 = multByConstant ops 8968 tmp3;
                          tmp2 = addCtxt ops tmp3 False tmp2;
                          tmp2 = addCtxt ops (fst (ev ! (init_length + 2))) True tmp2;
                          tmp1 = multiplyBy ops tmp2 tmp1
                      in on_first (init_length + 3) (addCtxt ops tmp1 True) ev)
                else ev3)
     in ev4)"

text \<open>
  \<^verbatim>\<open>rowComputationGeneral\<close>: the list of splitting values gets the row size appended,
  the input is pushed with the first value as its precision, and each consecutive pair
  \<open>(e_inner_previous, e_inner)\<close> of the list is one stage on the last result so far.
\<close>

fun rowComputationStages ::
  "('c, 'm) extract_env_scheme \<Rightarrow> int \<Rightarrow> int \<Rightarrow> bool \<Rightarrow> int list \<Rightarrow> ('c \<times> int) list
     \<Rightarrow> error + ('c \<times> int) list" where
  "rowComputationStages env triangleSize rowSize lazy (e_inner_previous # e_inner # es) ctxtEval =
     (case (if getP env = 2 \<and> e_inner_previous = 1 \<and> e_inner \<le> 16
            then Inr (rowComputationMultivariate env (fst (last ctxtEval)) ctxtEval
                        (min rowSize e_inner))
            else rowComputationComposition env (fst (last ctxtEval)) ctxtEval
                   (min triangleSize e_inner) (min rowSize e_inner) lazy e_inner_previous) of
        Inl failed \<Rightarrow> Inl (LogicError failed)
      | Inr ctxtEval' \<Rightarrow>
          rowComputationStages env triangleSize rowSize lazy (e_inner # es) ctxtEval')"
| "rowComputationStages env triangleSize rowSize lazy es ctxtEval = Inr ctxtEval"

definition rowComputationGeneral ::
  "('c, 'm) extract_env_scheme \<Rightarrow> 'c \<Rightarrow> ('c \<times> int) list \<Rightarrow> int \<Rightarrow> int \<Rightarrow> bool \<Rightarrow> int list
     \<Rightarrow> error + ('c \<times> int) list" where
  "rowComputationGeneral env ctxt ctxtEval triangleSize rowSize lazy e_inner_compose_list =
     (let e_inner_compose_list = e_inner_compose_list @ [rowSize];
          ctxtEval = ctxtEval @ [(ctxt, hd e_inner_compose_list)]
      in rowComputationStages env triangleSize rowSize lazy e_inner_compose_list ctxtEval)"

text \<open>
  The reference polynomials of the specification (section 4.3.1) and the results the
  specification asks of a row of the given size.
\<close>

definition f2 :: "'a::comm_ring_1 \<Rightarrow> 'a" where
  "f2 x = x ^ 2"

definition f4 :: "'a::comm_ring_1 \<Rightarrow> 'a" where
  "f4 x = x ^ 4"

definition f8 :: "'a::comm_ring_1 \<Rightarrow> 'a" where
  "f8 x = 112 * x ^ 2 + (94 * x ^ 2 + 121 * x ^ 4) ^ 2"

definition f16 :: "'a::comm_ring_1 \<Rightarrow> 'a" where
  "f16 x = 11136 * x ^ 4 - (15364 * x ^ 4 - 14115 * f8 x) * (28504 * x ^ 2 + 8968 * x ^ 4 - f8 x)"

definition cascade_spec :: "'a::comm_ring_1 \<Rightarrow> int \<Rightarrow> ('a \<times> int) list" where
  "cascade_spec x rowSize =
     (if 2 \<le> rowSize then [(f2 x, 2)] else []) @
     (if 3 \<le> rowSize then [(f4 x, 4)] else []) @
     (if 5 \<le> rowSize then [(f8 x, 8)] else []) @
     (if 9 \<le> rowSize then [(f16 x, 16)] else [])"


section \<open>The trapezoid of the digit extraction (\<^verbatim>\<open>customExtractDigitsThin\<close>)\<close>

text \<open>
  The innermost loop over the results of the row, with its \<^verbatim>\<open>break\<close>: the first
  result precise enough for \<open>nextRow\<close> is subtracted from that row's ciphertext, the
  difference is divided by \<open>p\<close>, and the stored precision is updated. When no result
  fits, the row is left as it is.
\<close>

fun subtractFirstFit ::
  "('c, 'm) ctxt_ops_scheme \<Rightarrow> nat \<Rightarrow> nat \<Rightarrow> ('c \<times> int) list \<Rightarrow> 'c \<times> int \<Rightarrow> 'c \<times> int" where
  "subtractFirstFit ops row nextRow [] cur = cur"
| "subtractFirstFit ops row nextRow (tup # rest) cur =
     (if int nextRow + 1 \<le> snd tup + int row
      then (divideByP ops (addCtxt ops (fst tup) True (fst cur)), min (snd cur) (snd tup) - 1)
      else subtractFirstFit ops row nextRow rest cur)"

text \<open>One iteration of the loop over \<open>nextRow\<close>.\<close>

definition updateNextRow ::
  "('c, 'm) ctxt_ops_scheme \<Rightarrow> ('c \<times> int) list \<Rightarrow> nat \<Rightarrow> nat \<Rightarrow> ('c \<times> int) list
     \<Rightarrow> ('c \<times> int) list" where
  "updateNextRow ops ctxtEval row nextRow ctxtRows =
     (if row + 1 < nextRow \<and> int nextRow + 1 \<le> snd (ctxtRows ! (nextRow - 1)) + int row + 1
      then ctxtRows[nextRow := ctxtRows ! (nextRow - 1)]
      else ctxtRows[nextRow := subtractFirstFit ops row nextRow ctxtEval (ctxtRows ! nextRow)])"

text \<open>
  The loop over the rows. The state is the vector \<open>ctxtRows\<close> and the running
  \<open>ctxt\<close>; the rows still to do are the list argument. Reading the list of splitting
  values of an empty \<open>e_inner_compose_list\<close> is an access at index \<open>-1\<close>, and
  \<^verbatim>\<open>ctxtEval.back()\<close> of an empty vector is undefined as well (the row computation of
  the source always pushes the input first).
\<close>

fun extractRows ::
  "('c, 'm) extract_env_scheme \<Rightarrow> int \<Rightarrow> int \<Rightarrow> bool \<Rightarrow> int list list \<Rightarrow> nat list
     \<Rightarrow> ('c \<times> int) list \<times> 'c \<Rightarrow> error + ('c \<times> int) list \<times> 'c" where
  "extractRows env botHigh r lazy e_inner_compose_list [] state = Inr state"
| "extractRows env botHigh r lazy e_inner_compose_list (row # rows) (ctxtRows, ctxt) =
     (if e_inner_compose_list = [] then Inl (Undefined ''e_inner_compose_list[-1]'')
      else
        case rowComputationGeneral env (fst (ctxtRows ! row)) [] (botHigh - int row)
               (botHigh + r - int row) lazy
               (e_inner_compose_list ! min row (length e_inner_compose_list - 1)) of
          Inl err \<Rightarrow> Inl err
        | Inr ctxtEval \<Rightarrow>
            if ctxtEval = [] then Inl (Undefined ''ctxtEval.back()'')
            else
              let ctxtRows = fold (updateNextRow env ctxtEval row) [row + 1 ..< nat botHigh] ctxtRows;
                  ctxt = (if int row + 1 < botHigh \<and> botHigh + r \<le> snd (last ctxtRows) + int row + 1
                          then fst (last ctxtRows)
                          else divideByP env (addCtxt env (fst (last ctxtEval)) True ctxt))
              in extractRows env botHigh r lazy e_inner_compose_list rows (ctxtRows, ctxt))"

text \<open>
  \<^verbatim>\<open>lround(pow(p, botHigh) / 2)\<close> for \<open>p = 2\<close>, the only prime it is computed for:
  \<open>2 ^ (botHigh - 1)\<close> when \<open>botHigh \<ge> 1\<close>; for \<open>botHigh = 0\<close> the quotient is
  \<open>0.5\<close>, which \<^verbatim>\<open>lround\<close> rounds away from zero; below that it rounds to \<open>0\<close>.
\<close>

definition lround_half_pow2 :: "int \<Rightarrow> int" where
  "lround_half_pow2 botHigh =
     (if 1 \<le> botHigh then 2 ^ nat (botHigh - 1) else if botHigh = 0 then 1 else 0)"

text \<open>
  The rows of the trapezoid on their own: the vector of \<open>botHigh\<close> copies of the
  input, then the loop. A negative \<open>botHigh\<close> makes the vector's constructor throw.
\<close>

definition trapezoid ::
  "('c, 'm) extract_env_scheme \<Rightarrow> 'c \<Rightarrow> int \<Rightarrow> int \<Rightarrow> bool \<Rightarrow> int list list \<Rightarrow> error + 'c" where
  "trapezoid env ctxt botHigh r lazy e_inner_compose_list =
     (if botHigh < 0 then Inl LengthError
      else
        case extractRows env botHigh r lazy e_inner_compose_list [0 ..< nat botHigh]
               (replicate (nat botHigh) (ctxt, botHigh + r), ctxt) of
          Inl err \<Rightarrow> Inl err
        | Inr (ctxtRows, ctxt') \<Rightarrow> Inr ctxt')"

definition customExtractDigitsThin ::
  "('c, 'm) extract_env_scheme \<Rightarrow> 'c \<Rightarrow> int \<Rightarrow> int \<Rightarrow> bool \<Rightarrow> int list list \<Rightarrow> error + 'c" where
  "customExtractDigitsThin env ctxt botHigh r lazy e_inner_compose_list =
     (let ctxt = (if getP env = 2 then addConstant env (lround_half_pow2 botHigh) ctxt else ctxt)
      in case trapezoid env ctxt botHigh r lazy e_inner_compose_list of
           Inl err \<Rightarrow> Inl err
         | Inr ctxt \<Rightarrow> Inr (negate env ctxt))"

section \<open>Digit extraction from thinly packed slots (\<^verbatim>\<open>extractDigitsThin\<close>)\<close>

text \<open>
  The function returns the lines it has printed together with the new ciphertext or
  the exception. The warning is printed before the exception is thrown.
\<close>

definition extractDigitsThin ::
  "('c, 'm) extract_env_scheme \<Rightarrow> 'c \<Rightarrow> int \<Rightarrow> int \<Rightarrow> int \<Rightarrow> bool \<Rightarrow> bool \<Rightarrow> int list list
     \<Rightarrow> message list \<times> (error + 'c)" where
  "extractDigitsThin env ctxt botHigh r ePrime our_version lazy e_inner_compose_list =
     (let out = (if ePrime < r then [WarnUnfortunateParameters ePrime r] else [])
      in if ePrime < r \<and> our_version
         then (out, Inl (RuntimeError ''Bad parameter choice. See warning above.''))
         else if our_version
         then (out, customExtractDigitsThin env ctxt botHigh r lazy e_inner_compose_list)
         else (case builtinExtractDigits env ctxt botHigh r ePrime of
                 (lines, ctxt') \<Rightarrow>
                   (out @ StartingBuiltinDigitExtraction # map BuiltinOutput lines, Inr ctxt')))"

section \<open>Ciphertexts (\<^verbatim>\<open>Ctxt.h\<close>)\<close>

text \<open>
  A ciphertext part is a ring element in double-CRT form (type \<open>'d\<close>, implemented
  outside the files at hand) with the handle of the secret-key polynomial it
  belongs to. A ciphertext has the fields of class \<^verbatim>\<open>Ctxt\<close>; an \<^verbatim>\<open>IndexSet\<close>
  is a set of integers, and the \<^verbatim>\<open>xdouble\<close> fields are read as real numbers.
\<close>

record 'd CtxtPart =
  dcrt :: 'd
  skHandle :: SKHandle

record 'd Ctxt =
  parts :: "'d CtxtPart list"
  primeSet :: "int set"
  ptxtSpace :: int
  noiseBound :: real
  intFactor :: int
  ratFactor :: real
  ptxtMag :: real

definition isBase :: "SKHandle \<Rightarrow> int \<Rightarrow> bool" where
  "isBase h ofKeyID =
     (powerOfS h = 1 \<and> powerOfX h = 1 \<and> (ofKeyID < 0 \<or> secretKeyID h = ofKeyID))"

definition isEmpty :: "'d Ctxt \<Rightarrow> bool" where
  "isEmpty ctxt = (length (parts ctxt) = 0)"

definition inCanonicalForm :: "'d Ctxt \<Rightarrow> int \<Rightarrow> bool" where
  "inCanonicalForm ctxt keyID =
     (if 2 < length (parts ctxt) then False
      else if 0 < length (parts ctxt) \<and> \<not> isOne (skHandle (parts ctxt ! 0)) then False
      else if 1 < length (parts ctxt) \<and> \<not> isBase (skHandle (parts ctxt ! 1)) keyID then False
      else True)"

section \<open>What the bootstrapping calls\<close>

text \<open>
  An integer polynomial (\<^verbatim>\<open>NTL::ZZX\<close>) is the list of its coefficients in ascending
  degree without trailing zeros; \<open>normalize_ZZX\<close> is \<^verbatim>\<open>ZZX::normalize\<close>.
\<close>

definition normalize_ZZX :: "int list \<Rightarrow> int list" where
  "normalize_ZZX f = rev (dropWhile (\<lambda>c. c = 0) (rev f))"

text \<open>
  \<^verbatim>\<open>NTL::power_long(a, e)\<close> for the exponents the bootstrapping data holds, which are
  not negative.
\<close>

definition power_long :: "int \<Rightarrow> int \<Rightarrow> int" where
  "power_long a e = a ^ nat e"

text \<open>
  The record below extends the operations of the digit extraction by everything else
  the two bootstrapping routines read or call and that is implemented outside the files
  at hand: the build flag \<^verbatim>\<open>HELIB_DEBUG\<close>; the key id, the parameters \<open>r\<close>, \<open>p^r\<close>,
  \<open>e\<close>, \<open>e'\<close>, the prime sets and the three factors of the noise bound, read from the
  public key and the context; the conversions of a part to \<^verbatim>\<open>ZZX\<close> and between
  \<^verbatim>\<open>ZZX\<close> and the powerful basis; the methods of \<^verbatim>\<open>Ctxt\<close> and the linear maps, each
  taking the ciphertext last and returning the new one; \<open>rawModSwitch\<close>, which returns
  the parts and the noise estimate; the successive results of \<^verbatim>\<open>NTL::RandomBnd(2)\<close>
  (\<open>True\<close> for 1); the encrypted recryption key; and the unpacking and repacking of
  the slots that \<^verbatim>\<open>extractDigitsPacked\<close> performs before and after its loop.
  \<^verbatim>\<open>double\<close> values are read as real numbers: rounding is not modelled.
\<close>

record 'd recrypt_env = "'d Ctxt extract_env" +
  HELIB_DEBUG :: bool
  recryptKeyID :: int
  getR :: int
  getPPowR :: int
  rcData_e :: int
  rcData_ePrime :: int
  getSpecialPrimes :: "int set"
  getCtxtPrimes :: "int set"
  getNormBnd :: real
  boundForRecryption :: real
  HELIB_MIN_CAP_FRAC :: real
  to_ZZX :: "'d CtxtPart \<Rightarrow> int list"
  ZZXtoPowerful :: "int list \<Rightarrow> int list"
  powerfulToZZX :: "int list \<Rightarrow> int list"
  RandomBnd2 :: "nat \<Rightarrow> bool"
  DummyEncrypt :: "int list \<Rightarrow> 'd Ctxt \<Rightarrow> 'd Ctxt"
  dropSmallAndSpecialPrimes :: "'d Ctxt \<Rightarrow> 'd Ctxt"
  bringToSet :: "int set \<Rightarrow> 'd Ctxt \<Rightarrow> 'd Ctxt"
  reLinearize :: "int \<Rightarrow> 'd Ctxt \<Rightarrow> 'd Ctxt"
  modDownToSet :: "int set \<Rightarrow> 'd Ctxt \<Rightarrow> 'd Ctxt"
  rawModSwitch :: "'d Ctxt \<Rightarrow> int \<Rightarrow> int list list \<times> real"
  recryptEkey :: "'d Ctxt"
  multByConstantZZX :: "int list \<Rightarrow> 'd Ctxt \<Rightarrow> 'd Ctxt"
  addConstantZZX :: "int list \<Rightarrow> 'd Ctxt \<Rightarrow> 'd Ctxt"
  firstMap :: "'d Ctxt \<Rightarrow> 'd Ctxt"
  secondMap :: "'d Ctxt \<Rightarrow> 'd Ctxt"
  slotToCoeff :: "'d Ctxt \<Rightarrow> 'd Ctxt"
  coeffToSlot :: "'d Ctxt \<Rightarrow> 'd Ctxt"
  unpackSlots :: "'d Ctxt \<Rightarrow> 'd Ctxt list"
  repackSlots :: "'d Ctxt list \<Rightarrow> 'd Ctxt"

section \<open>Making the mod-switched parts divisible (\<^verbatim>\<open>newMakeDivisible\<close>)\<close>

text \<open>
  The body of the loop over the coefficients in the powerful basis, up to the update of
  \<open>z\<close>. The arguments are the prime, \<open>p2e\<close>, \<open>q\<close>, the random bits, the coefficient
  \<open>z\<close> and the number of random bits drawn so far; the result is the new \<open>z\<close>, the
  value \<open>v\<close> added in units of \<open>q\<close>, and the number of random bits drawn.
  \<^verbatim>\<open>RandomBnd(2)\<close> is called only when the tests before it in the condition hold.
\<close>

definition makeDivisibleCoeff ::
  "int \<Rightarrow> int \<Rightarrow> int \<Rightarrow> (nat \<Rightarrow> bool) \<Rightarrow> int \<Rightarrow> nat \<Rightarrow> int \<times> int \<times> nat" where
  "makeDivisibleCoeff p p2e q random z drawn =
     (let zMod = z mod p2e;
          draws = (\<not> p2e div 2 < zMod \<and> p = 2 \<and> zMod = p2e div 2);
          zMod = (if p2e div 2 < zMod \<or> (draws \<and> random drawn) then p2e - zMod else - zMod);
          drawn = (if draws then drawn + 1 else drawn);
          v = zMod;
          z = z + q * v
      in (z, v, drawn))"

text \<open>
  The loop: the sanity check after each update ends the process with \<^verbatim>\<open>exit(1)\<close>.
  The result is the new coefficients, the values \<open>v\<close>, and the number of random bits
  drawn.
\<close>

fun makeDivisibleLoop ::
  "int \<Rightarrow> int \<Rightarrow> int \<Rightarrow> (nat \<Rightarrow> bool) \<Rightarrow> int list \<Rightarrow> nat \<Rightarrow> error + int list \<times> int list \<times> nat" where
  "makeDivisibleLoop p p2e q random [] drawn = Inr ([], [], drawn)"
| "makeDivisibleLoop p p2e q random (z # pwrfl) drawn =
     (case makeDivisibleCoeff p p2e q random z drawn of
        (z', v, drawn') \<Rightarrow>
          if z' mod p2e \<noteq> 0 then Inl (Exit 1)
          else (case makeDivisibleLoop p p2e q random pwrfl drawn' of
                  Inl err \<Rightarrow> Inl err
                | Inr (pwrfl', vvec, drawn'') \<Rightarrow> Inr (z' # pwrfl', v # vvec, drawn'')))"

text \<open>
  \<^verbatim>\<open>newMakeDivisible(poly, p2e, q, context, vpoly)\<close> returns the new \<open>poly\<close>, the new
  \<open>vpoly\<close> and the number of random bits drawn. \<open>vpoly\<close> is set to zero when
  \<open>p2e = 1\<close>, to the polynomial of the values \<open>v\<close> in a \<^verbatim>\<open>HELIB_DEBUG\<close> build, and is
  left alone otherwise.
\<close>

definition newMakeDivisible ::
  "('d, 'm) recrypt_env_scheme \<Rightarrow> int list \<Rightarrow> int \<Rightarrow> int \<Rightarrow> int list \<Rightarrow> nat
     \<Rightarrow> error + int list \<times> int list \<times> nat" where
  "newMakeDivisible env poly p2e q vpoly drawn =
     (if p2e = 1 then Inr (poly, [], drawn)
      else if \<not> 0 < q then Inl (InvalidArgument ''q must be positive'')
      else if \<not> 0 < p2e then Inl (InvalidArgument ''p2e must be positive'')
      else if q mod p2e \<noteq> 1 then Inl (InvalidArgument ''q must equal 1 modulo p2e'')
      else
        case makeDivisibleLoop (getP env) p2e q (RandomBnd2 env) (ZZXtoPowerful env poly) drawn of
          Inl err \<Rightarrow> Inl err
        | Inr (pwrfl, vvec, drawn') \<Rightarrow>
            Inr (powerfulToZZX env pwrfl,
                 if HELIB_DEBUG env then powerfulToZZX env vvec else vpoly,
                 drawn'))"

section \<open>Bootstrapping (\<^verbatim>\<open>PubKey::reCrypt\<close> and \<^verbatim>\<open>PubKey::thinReCrypt\<close>)\<close>

text \<open>
  One pass through the body of a bootstrapping routine ends in one of three ways: by
  one of the two \<^verbatim>\<open>return\<close> statements at its top, by reaching its end (with the
  number of random bits drawn so far), or by an exception.
\<close>

datatype 'c pass = Returned 'c | Finished 'c nat | Threw error

text \<open>
  The dummy encryption at the top of both routines: every coefficient of the single
  part is reduced modulo the plaintext space, the polynomial is normalised and
  encrypted as a dummy. The plaintext space of a ciphertext is positive, so NTL's
  \<^verbatim>\<open>rem\<close> is \<open>mod\<close>.
\<close>

definition reduceDummy :: "('d, 'm) recrypt_env_scheme \<Rightarrow> 'd Ctxt \<Rightarrow> 'd Ctxt" where
  "reduceDummy env ctxt =
     (let poly = to_ZZX env (parts ctxt ! 0);
          poly = map (\<lambda>c. c mod ptxtSpace ctxt) poly;
          poly = normalize_ZZX poly
      in DummyEncrypt env poly ctxt)"

text \<open>
  The steps both routines share, in the order of the source. First: bring the
  ciphertext into canonical form, compute the prime set to keep (at most the first
  three ciphertext primes), switch the modulus down and switch to the recryption key.
\<close>

definition keySwitchToRecryptKey :: "('d, 'm) recrypt_env_scheme \<Rightarrow> 'd Ctxt \<Rightarrow> error + 'd Ctxt" where
  "keySwitchToRecryptKey env ctxt =
     (let ctxt = (if \<not> inCanonicalForm ctxt 0 then reLinearize env 0 ctxt else ctxt);
          s = primeSet ctxt - getSpecialPrimes env
      in if \<not> s \<subseteq> getCtxtPrimes env then Inl (LogicError ''prime set is messed up'')
         else
           let s = (if 3 < card s then s \<inter> {Min s .. Min s + 2} else s);
               ctxt = modDownToSet env s ctxt
           in Inr (reLinearize env (recryptKeyID env) ctxt))"

text \<open>
  Second: the raw mod-switch to \<open>q = p^e + 1\<close> and the check of the scaled noise.
  \<open>noise_rat\<close> is the ratio the source computes: the estimate returned by
  \<^verbatim>\<open>rawModSwitch\<close> times the norm bound of the ring, over the bound assumed when the
  parameters were chosen. In a \<^verbatim>\<open>HELIB_DEBUG\<close> build a ratio above 1 is reported by
  \<^verbatim>\<open>Warning\<close>; otherwise it is thrown. The assertion on the number of parts follows.
\<close>

definition noise_rat :: "('d, 'm) recrypt_env_scheme \<Rightarrow> 'd Ctxt \<Rightarrow> int \<Rightarrow> real" where
  "noise_rat env ctxt q =
     (let mfac = getNormBnd env;
          noise_est = snd (rawModSwitch env ctxt q) * mfac;
          noise_bnd = HELIB_MIN_CAP_FRAC env * real_of_int (getPPowR env) * boundForRecryption env
      in noise_est / noise_bnd)"

definition rawModSwitchChecked ::
  "('d, 'm) recrypt_env_scheme \<Rightarrow> 'd Ctxt \<Rightarrow> int \<Rightarrow> message list \<times> (error + int list list)" where
  "rawModSwitchChecked env ctxt q =
     (let zzParts = fst (rawModSwitch env ctxt q);
          noise_rat = noise_rat env ctxt q
      in if 1 < noise_rat \<and> \<not> HELIB_DEBUG env then ([], Inl (NoiseBoundExceeded noise_rat))
         else
           let out = (if 1 < noise_rat then [NoiseWarning noise_rat] else [])
           in if length zzParts \<noteq> 2
              then (out, Inl (LogicError
                     ''Exactly 2 parts required for mod-switching in thin bootstrapping''))
              else (out, Inr zzParts))"

text \<open>
  Third: multiples of \<open>q\<close> are added to make both parts divisible by \<open>p^e'\<close>, the
  parts are divided by \<open>p^e'\<close> (exactly, after the step before), and the ciphertext
  becomes the encrypted recryption key times the second part plus the first.
\<close>

definition refreshKeyCombination ::
  "('d, 'm) recrypt_env_scheme \<Rightarrow> int list list \<Rightarrow> int \<Rightarrow> int \<Rightarrow> nat \<Rightarrow> error + 'd Ctxt \<times> nat" where
  "refreshKeyCombination env zzParts p2ePrime q drawn =
     (case newMakeDivisible env (zzParts ! 0) p2ePrime q [] drawn of
        Inl err \<Rightarrow> Inl err
      | Inr (zzParts0, v0, drawn) \<Rightarrow>
          (case newMakeDivisible env (zzParts ! 1) p2ePrime q [] drawn of
             Inl err \<Rightarrow> Inl err
           | Inr (zzParts1, v1, drawn) \<Rightarrow>
               let zzParts0 = map (\<lambda>c. c div p2ePrime) zzParts0;
                   zzParts1 = map (\<lambda>c. c div p2ePrime) zzParts1;
                   ctxt = recryptEkey env;
                   ctxt = multByConstantZZX env zzParts1 ctxt;
                   ctxt = addConstantZZX env zzParts0 ctxt
               in Inr (ctxt, drawn)))"

text \<open>Last: the factor saved at the start is multiplied back in.\<close>

definition restoreIntFactor :: "int \<Rightarrow> int \<Rightarrow> 'd Ctxt \<Rightarrow> 'd Ctxt" where
  "restoreIntFactor intFactor' ptxtSpace' ctxt =
     (if intFactor' \<noteq> 1
      then ctxt\<lparr>intFactor := (intFactor ctxt * intFactor') mod ptxtSpace'\<rparr>
      else ctxt)"

text \<open>
  \<^verbatim>\<open>extractDigitsPacked\<close> (the version without threads): the slots are unpacked into
  \<open>d\<close> ciphertexts, \<^verbatim>\<open>extractDigitsThin\<close> runs on each in turn with the default list of
  splitting values, and the results are repacked.
\<close>

fun extractDigitsThinEach ::
  "('c, 'm) extract_env_scheme \<Rightarrow> 'c list \<Rightarrow> int \<Rightarrow> int \<Rightarrow> int \<Rightarrow> bool \<Rightarrow> bool
     \<Rightarrow> message list \<times> (error + 'c list)" where
  "extractDigitsThinEach env [] botHigh r ePrime our_version lazy = ([], Inr [])"
| "extractDigitsThinEach env (c # unpacked) botHigh r ePrime our_version lazy =
     (case extractDigitsThin env c botHigh r ePrime our_version lazy [[1]] of
        (out, Inl err) \<Rightarrow> (out, Inl err)
      | (out, Inr c') \<Rightarrow>
          (case extractDigitsThinEach env unpacked botHigh r ePrime our_version lazy of
             (out', Inl err) \<Rightarrow> (out @ out', Inl err)
           | (out', Inr unpacked') \<Rightarrow> (out @ out', Inr (c' # unpacked'))))"

definition extractDigitsPacked ::
  "('d, 'm) recrypt_env_scheme \<Rightarrow> 'd Ctxt \<Rightarrow> int \<Rightarrow> int \<Rightarrow> int \<Rightarrow> bool \<Rightarrow> bool
     \<Rightarrow> message list \<times> (error + 'd Ctxt)" where
  "extractDigitsPacked env ctxt botHigh r ePrime our_version lazy =
     (case extractDigitsThinEach env (unpackSlots env ctxt) botHigh r ePrime our_version lazy of
        (out, Inl err) \<Rightarrow> (out, Inl err)
      | (out, Inr unpacked) \<Rightarrow> (out, Inr (repackSlots env unpacked)))"

text \<open>
  \<^verbatim>\<open>PubKey::reCrypt\<close> from the assertion on the key id to the key switch, and from the
  raw mod-switch to the end. The second function takes the ciphertext as the routine
  received it (for the factor and the plaintext space saved at the start) and as it is
  after the key switch.
\<close>

definition reCryptKeySwitch :: "('d, 'm) recrypt_env_scheme \<Rightarrow> 'd Ctxt \<Rightarrow> error + 'd Ctxt" where
  "reCryptKeySwitch env ctxt =
     (if \<not> 0 \<le> recryptKeyID env then Inl (LogicError ''No bootstrapping data'')
      else if \<not> getR env \<le> rcData_e env
        then Inl (LogicError ''rcData.e must be at least alMod.r'')
      else if getPPowR env mod ptxtSpace ctxt \<noteq> 0
        then Inl (LogicError ''ptxtSpace must divide p^r when bootstrapping'')
      else keySwitchToRecryptKey env (dropSmallAndSpecialPrimes env ctxt))"

definition reCryptRefresh ::
  "('d, 'm) recrypt_env_scheme \<Rightarrow> 'd Ctxt \<Rightarrow> 'd Ctxt \<Rightarrow> bool \<Rightarrow> bool \<Rightarrow> nat
     \<Rightarrow> message list \<times> 'd Ctxt pass" where
  "reCryptRefresh env ctxt0 ctxt our_version lazy drawn =
     (let p = getP env; r = getR env; e = rcData_e env; ePrime = rcData_ePrime env;
          p2ePrime = power_long p ePrime;
          q = power_long p e + 1
      in case rawModSwitchChecked env ctxt q of
           (out, Inl err) \<Rightarrow> (out, Threw err)
         | (out, Inr zzParts) \<Rightarrow>
             (case refreshKeyCombination env zzParts p2ePrime q drawn of
                Inl err \<Rightarrow> (out, Threw err)
              | Inr (ctxt, drawn) \<Rightarrow>
                  let ctxt = firstMap env ctxt
                  in (case extractDigitsPacked env ctxt (e - ePrime) r ePrime our_version lazy of
                        (out', Inl err) \<Rightarrow> (out @ out', Threw err)
                      | (out', Inr ctxt) \<Rightarrow>
                          let ctxt = secondMap env ctxt;
                              ctxt = restoreIntFactor (intFactor ctxt0) (ptxtSpace ctxt0) ctxt
                          in (out @ out', Finished ctxt drawn))))"

definition reCryptPass ::
  "('d, 'm) recrypt_env_scheme \<Rightarrow> 'd Ctxt \<Rightarrow> bool \<Rightarrow> bool \<Rightarrow> nat \<Rightarrow> message list \<times> 'd Ctxt pass" where
  "reCryptPass env ctxt our_version lazy drawn =
     (if isEmpty ctxt then ([], Returned ctxt)
      else if length (parts ctxt) = 1 \<and> isOne (skHandle (parts ctxt ! 0))
        then ([], Returned (reduceDummy env ctxt))
      else case reCryptKeySwitch env ctxt of
             Inl err \<Rightarrow> ([], Threw err)
           | Inr ctxt' \<Rightarrow> reCryptRefresh env ctxt ctxt' our_version lazy drawn)"

text \<open>
  \<^verbatim>\<open>PubKey::reCrypt(ctxt, our_version, lazy)\<close>: the new ciphertext or the exception,
  with what was printed. The statistics are printed only when the end is reached.
\<close>

definition reCrypt ::
  "('d, 'm) recrypt_env_scheme \<Rightarrow> 'd Ctxt \<Rightarrow> bool \<Rightarrow> bool \<Rightarrow> nat
     \<Rightarrow> message list \<times> (error + 'd Ctxt)" where
  "reCrypt env ctxt our_version lazy drawn =
     (case reCryptPass env ctxt our_version lazy drawn of
        (out, Returned ctxt') \<Rightarrow> (out, Inr ctxt')
      | (out, Threw err) \<Rightarrow> (out, Inl err)
      | (out, Finished ctxt' drawn') \<Rightarrow> (out @ [Statistics], Inr ctxt'))"

text \<open>
  \<^verbatim>\<open>PubKey::thinReCrypt\<close>: the body of its loop. It differs from the thick routine in
  the messages of its assertions, in dropping to at most three ciphertext primes and
  applying the slot-to-coefficient map before the key switch, and in calling
  \<^verbatim>\<open>extractDigitsThin\<close> directly between the coefficient-to-slot map and the end.
\<close>

definition thinReCryptKeySwitch :: "('d, 'm) recrypt_env_scheme \<Rightarrow> 'd Ctxt \<Rightarrow> error + 'd Ctxt" where
  "thinReCryptKeySwitch env ctxt =
     (if \<not> 0 \<le> recryptKeyID env then Inl (LogicError ''Bootstrapping data not present'')
      else if \<not> getR env \<le> rcData_e env
        then Inl (LogicError ''trcData.e must be at least alMod.r'')
      else if getPPowR env mod ptxtSpace ctxt \<noteq> 0
        then Inl (LogicError ''ptxtSpace must divide p^r when thin bootstrapping'')
      else
        let ctxt = dropSmallAndSpecialPrimes env ctxt;
            first = Min (getCtxtPrimes env);
            last = min (Max (getCtxtPrimes env)) (first + 3 - 1);
            ctxt = bringToSet env {first .. last} ctxt;
            ctxt = slotToCoeff env ctxt
        in keySwitchToRecryptKey env ctxt)"

definition thinReCryptRefresh ::
  "('d, 'm) recrypt_env_scheme \<Rightarrow> 'd Ctxt \<Rightarrow> 'd Ctxt \<Rightarrow> bool \<Rightarrow> bool \<Rightarrow> nat
     \<Rightarrow> message list \<times> 'd Ctxt pass" where
  "thinReCryptRefresh env ctxt0 ctxt our_version lazy drawn =
     (let p = getP env; r = getR env; e = rcData_e env; ePrime = rcData_ePrime env;
          p2ePrime = power_long p ePrime;
          q = power_long p e + 1
      in case rawModSwitchChecked env ctxt q of
           (out, Inl err) \<Rightarrow> (out, Threw err)
         | (out, Inr zzParts) \<Rightarrow>
             (case refreshKeyCombination env zzParts p2ePrime q drawn of
                Inl err \<Rightarrow> (out, Threw err)
              | Inr (ctxt, drawn) \<Rightarrow>
                  let ctxt = coeffToSlot env ctxt
                  in (case extractDigitsThin env ctxt (e - ePrime) r ePrime our_version lazy [[1]] of
                        (out', Inl err) \<Rightarrow> (out @ out', Threw err)
                      | (out', Inr ctxt) \<Rightarrow>
                          let ctxt = restoreIntFactor (intFactor ctxt0) (ptxtSpace ctxt0) ctxt
                          in (out @ out', Finished ctxt drawn))))"

definition thinReCryptPass ::
  "('d, 'm) recrypt_env_scheme \<Rightarrow> 'd Ctxt \<Rightarrow> bool \<Rightarrow> bool \<Rightarrow> nat \<Rightarrow> message list \<times> 'd Ctxt pass" where
  "thinReCryptPass env ctxt our_version lazy drawn =
     (if isEmpty ctxt then ([], Returned ctxt)
      else if length (parts ctxt) = 1 \<and> isOne (skHandle (parts ctxt ! 0))
        then ([], Returned (reduceDummy env ctxt))
      else case thinReCryptKeySwitch env ctxt of
             Inl err \<Rightarrow> ([], Threw err)
           | Inr ctxt' \<Rightarrow> thinReCryptRefresh env ctxt ctxt' our_version lazy drawn)"

text \<open>
  The loop of \<^verbatim>\<open>thinReCrypt\<close> runs the body \<open>nb_iterations\<close> times on the same
  ciphertext; a \<^verbatim>\<open>return\<close> or an exception in the body ends the routine.
\<close>

fun thinReCryptLoop ::
  "('d, 'm) recrypt_env_scheme \<Rightarrow> bool \<Rightarrow> bool \<Rightarrow> nat \<Rightarrow> 'd Ctxt \<Rightarrow> nat
     \<Rightarrow> message list \<times> 'd Ctxt pass" where
  "thinReCryptLoop env our_version lazy 0 ctxt drawn = ([], Finished ctxt drawn)"
| "thinReCryptLoop env our_version lazy (Suc n) ctxt drawn =
     (case thinReCryptPass env ctxt our_version lazy drawn of
        (out, Finished ctxt' drawn') \<Rightarrow>
          (case thinReCryptLoop env our_version lazy n ctxt' drawn' of
             (out', result) \<Rightarrow> (out @ out', result))
      | (out, Returned ctxt') \<Rightarrow> (out, Returned ctxt')
      | (out, Threw err) \<Rightarrow> (out, Threw err))"

text \<open>
  \<^verbatim>\<open>PubKey::thinReCrypt(ctxt, our_version, lazy, nb_iterations)\<close>. After the loop the
  statistics are printed as averages over the iterations: with \<open>nb_iterations = 0\<close>
  that is an integer division by zero.
\<close>

definition thinReCrypt ::
  "('d, 'm) recrypt_env_scheme \<Rightarrow> 'd Ctxt \<Rightarrow> bool \<Rightarrow> bool \<Rightarrow> int \<Rightarrow> nat
     \<Rightarrow> message list \<times> (error + 'd Ctxt)" where
  "thinReCrypt env ctxt our_version lazy nb_iterations drawn =
     (case thinReCryptLoop env our_version lazy (nat nb_iterations) ctxt drawn of
        (out, Returned ctxt') \<Rightarrow> (out, Inr ctxt')
      | (out, Threw err) \<Rightarrow> (out, Inl err)
      | (out, Finished ctxt' drawn') \<Rightarrow>
          if nb_iterations = 0 then (out, Inl (Undefined ''division by zero''))
          else (out @ [Statistics], Inr ctxt'))"

section \<open>A small environment for evaluating the model\<close>

text \<open>
  The theorems below are about every environment. To run the model on concrete inputs,
  \<open>toy_env\<close> fixes one: the double-CRT form of a part is its coefficient list, the
  parameters are \<open>r = 1\<close>, \<open>e = 3\<close>, \<open>e' = 1\<close> over three ciphertext primes, the
  conversions and the linear maps are identities, a mod-switch only records the prime
  set, unpacking gives one ciphertext, and the arithmetic on ciphertexts leaves them as
  they are. The prime, the build flag, the raw mod-switch and the random bits are
  arguments.
\<close>

definition toy_env ::
  "int \<Rightarrow> bool \<Rightarrow> (int list Ctxt \<Rightarrow> int \<Rightarrow> int list list \<times> real) \<Rightarrow> (nat \<Rightarrow> bool)
     \<Rightarrow> int list recrypt_env" where
  "toy_env p debug modSwitch random =
     \<lparr>getP = p,
      square = (\<lambda>c. c),
      multByConstant = (\<lambda>k c. c),
      addCtxt = (\<lambda>other negative c. c),
      multiplyBy = (\<lambda>other c. c),
      addConstant = (\<lambda>k c. c),
      divideByP = (\<lambda>c. c),
      negate = (\<lambda>c. c),
      rowComputationComposition = (\<lambda>c ctxtEval triangleSize rowSize lazy e_inner. Inr ctxtEval),
      builtinExtractDigits = (\<lambda>c botHigh r ePrime. ([], c)),
      HELIB_DEBUG = debug,
      recryptKeyID = 0,
      getR = 1,
      getPPowR = p,
      rcData_e = 3,
      rcData_ePrime = 1,
      getSpecialPrimes = {},
      getCtxtPrimes = {0, 1, 2},
      getNormBnd = 1,
      boundForRecryption = 1,
      HELIB_MIN_CAP_FRAC = 1,
      to_ZZX = dcrt,
      ZZXtoPowerful = (\<lambda>f. f),
      powerfulToZZX = (\<lambda>f. f),
      RandomBnd2 = random,
      DummyEncrypt = (\<lambda>poly c. c\<lparr>parts := [\<lparr>dcrt = poly,
                         skHandle = \<lparr>powerOfS = 0, powerOfX = 1, secretKeyID = 0\<rparr>\<rparr>]\<rparr>),
      dropSmallAndSpecialPrimes = (\<lambda>c. c),
      bringToSet = (\<lambda>s c. c\<lparr>primeSet := s\<rparr>),
      reLinearize = (\<lambda>keyID c. c),
      modDownToSet = (\<lambda>s c. c\<lparr>primeSet := s\<rparr>),
      rawModSwitch = modSwitch,
      recryptEkey = \<lparr>parts = [], primeSet = {0, 1, 2}, ptxtSpace = p ^ 3, noiseBound = 1,
                     intFactor = 1, ratFactor = 1, ptxtMag = 1\<rparr>,
      multByConstantZZX = (\<lambda>f c. c),
      addConstantZZX = (\<lambda>f c. c\<lparr>parts := [\<lparr>dcrt = f,
                         skHandle = \<lparr>powerOfS = 0, powerOfX = 1, secretKeyID = 0\<rparr>\<rparr>]\<rparr>),
      firstMap = (\<lambda>c. c),
      secondMap = (\<lambda>c. c),
      slotToCoeff = (\<lambda>c. c),
      coeffToSlot = (\<lambda>c. c),
      unpackSlots = (\<lambda>c. [c]),
      repackSlots = (\<lambda>cs. hd cs)\<rparr>"


section \<open>The lifting-polynomial files (\<^verbatim>\<open>polyEval.cpp\<close>)\<close>

text \<open>
  The file system is a map from file names to contents; a name it does not map cannot
  be opened. \<^verbatim>\<open>NTL::to_ZZ\<close>, which converts a string to an integer, is a parameter
  \<open>to_ZZ\<close> of the functions below; it is \<open>None\<close> where NTL rejects its input.
  \<open>isspace\<close> is the white space that \<^verbatim>\<open>operator>>\<close> skips.
\<close>

definition isspace :: "char \<Rightarrow> bool" where
  "isspace c = (c \<in> {CHR '' '', CHR 0x09, CHR 0x0A, CHR 0x0B, CHR 0x0C, CHR 0x0D})"

text \<open>
  \<^verbatim>\<open>indata >> tmp\<close> on the unread rest of the file: leading white space is skipped,
  the characters up to the next white space are the token, and what follows is the new
  rest. The token is empty exactly when the end of the file was reached first, and
  then the stream fails.
\<close>

definition read_token :: "string \<Rightarrow> string \<times> string" where
  "read_token s =
     (let s = dropWhile isspace s
      in (takeWhile (\<lambda>c. \<not> isspace c) s, dropWhile (\<lambda>c. \<not> isspace c) s))"

text \<open>
  \<^verbatim>\<open>SetCoeff(poly, i, a)\<close> on coefficient lists: the list is padded with zeros up to
  index \<open>i\<close>, the coefficient is stored, and the polynomial is normalised.
\<close>

definition SetCoeff :: "int list \<Rightarrow> nat \<Rightarrow> int \<Rightarrow> int list" where
  "SetCoeff poly i a = normalize_ZZX ((poly @ replicate (Suc i - length poly) 0)[i := a])"

text \<open>Each round of the loop consumes the token it has read.\<close>

lemma read_token_shorter:
  assumes "(tmp, rest) = read_token indata" and "tmp \<noteq> []"
  shows "length rest < length indata"
proof -
  from assms(1) have tmp: "tmp = takeWhile (\<lambda>c. \<not> isspace c) (dropWhile isspace indata)"
    and rest: "rest = dropWhile (\<lambda>c. \<not> isspace c) (dropWhile isspace indata)"
    by (simp_all add: read_token_def Let_def)
  have "length tmp + length rest = length (dropWhile isspace indata)"
    unfolding tmp rest by (metis length_append takeWhile_dropWhile_id)
  moreover have "length (dropWhile isspace indata) \<le> length indata"
    by (simp add: length_dropWhile_le)
  ultimately show ?thesis
    using assms(2) by (cases tmp) auto
qed

text \<open>
  The loop of \<^verbatim>\<open>parsePolynomial\<close>: it runs while the stream is good, so it ends with
  the first read that finds no token.
\<close>

function parseCoefficients ::
  "(string \<Rightarrow> int option) \<Rightarrow> string \<Rightarrow> int list \<Rightarrow> nat \<Rightarrow> error + int list" where
  "parseCoefficients to_ZZ indata poly_result index =
     (case read_token indata of
        (tmp, rest) \<Rightarrow>
          if tmp = [] then Inr poly_result
          else (case to_ZZ tmp of
                  None \<Rightarrow> Inl (InputError tmp)
                | Some a \<Rightarrow> parseCoefficients to_ZZ rest (SetCoeff poly_result index a) (index + 1)))"
  by pat_completeness auto
termination parseCoefficients
  by (relation "measure (\<lambda>(to_ZZ, indata, poly_result, index). length indata)")
     (auto dest: read_token_shorter)

definition parsePolynomial ::
  "(string \<Rightarrow> string option) \<Rightarrow> (string \<Rightarrow> int option) \<Rightarrow> string \<Rightarrow> error + int list" where
  "parsePolynomial fs to_ZZ fileName =
     (case fs fileName of
        None \<Rightarrow> Inl (LogicError ''Polynomial file does not exist.'')
      | Some indata \<Rightarrow> parseCoefficients to_ZZ indata [] 0)"

text \<open>
  A \<^verbatim>\<open>long\<close> written to a string stream: its decimal digits, with a minus sign when
  it is negative.
\<close>

fun decimal_digits :: "nat \<Rightarrow> string" where
  "decimal_digits n =
     (if n < 10 then [char_of (48 + n)]
      else decimal_digits (n div 10) @ [char_of (48 + n mod 10)])"

definition string_of_long :: "int \<Rightarrow> string" where
  "string_of_long n = (if n < 0 then CHR ''-'' # decimal_digits (nat (- n)) else decimal_digits (nat n))"

definition polynomialFileName :: "int \<Rightarrow> int \<Rightarrow> int \<Rightarrow> string" where
  "polynomialFileName p e_inner e =
     ''polynomials/poly'' @ string_of_long p @ ''_'' @ string_of_long e_inner @ ''_''
       @ string_of_long e @ ''.txt''"

text \<open>
  The innermost loop of \<^verbatim>\<open>init_polynomials\<close> for one prime and one \<open>e_inner\<close>: it has
  no bound of its own and ends at the first file that cannot be opened, so it is a
  partial function; \<open>None\<close> is a loop that never ends. The arguments \<open>e\<close> and
  \<open>loaded\<close> are the loop variable and the vector \<^verbatim>\<open>polynomial_vector[index][inner_index]\<close>
  so far.
\<close>

partial_function (option) loadPolynomials ::
  "(string \<Rightarrow> string option) \<Rightarrow> (string \<Rightarrow> int option) \<Rightarrow> int \<Rightarrow> int \<Rightarrow> int \<Rightarrow> int list list
     \<Rightarrow> (error + int list list) option" where
  "loadPolynomials fs to_ZZ p e_inner e loaded =
     (if fs (polynomialFileName p e_inner e) = None then Some (Inr loaded)
      else (case parsePolynomial fs to_ZZ (polynomialFileName p e_inner e) of
              Inl err \<Rightarrow> Some (Inl err)
            | Inr result \<Rightarrow> loadPolynomials fs to_ZZ p e_inner (e + 1) (loaded @ [result])))"

text \<open>
  The two outer loops, over the tables \<^verbatim>\<open>primes_list\<close> and \<^verbatim>\<open>e_inner_list\<close> of
  \<^verbatim>\<open>Magma_declare.h\<close> (not among the files; they are arguments, and \<^verbatim>\<open>nb_primes\<close> and
  \<^verbatim>\<open>nb_e_inner\<close> are their lengths). The result is \<^verbatim>\<open>polynomial_vector\<close>, which is
  empty before the call.
\<close>

fun loadInner ::
  "(string \<Rightarrow> string option) \<Rightarrow> (string \<Rightarrow> int option) \<Rightarrow> int \<Rightarrow> int list
     \<Rightarrow> (error + int list list list) option" where
  "loadInner fs to_ZZ p [] = Some (Inr [])"
| "loadInner fs to_ZZ p (e_inner # e_inner_list) =
     (case loadPolynomials fs to_ZZ p e_inner (e_inner + 1) [] of
        None \<Rightarrow> None
      | Some (Inl err) \<Rightarrow> Some (Inl err)
      | Some (Inr loaded) \<Rightarrow>
          (case loadInner fs to_ZZ p e_inner_list of
             None \<Rightarrow> None
           | Some (Inl err) \<Rightarrow> Some (Inl err)
           | Some (Inr others) \<Rightarrow> Some (Inr (loaded # others))))"

fun init_polynomials ::
  "(string \<Rightarrow> string option) \<Rightarrow> (string \<Rightarrow> int option) \<Rightarrow> int list \<Rightarrow> int list
     \<Rightarrow> (error + int list list list list) option" where
  "init_polynomials fs to_ZZ [] e_inner_list = Some (Inr [])"
| "init_polynomials fs to_ZZ (p # primes_list) e_inner_list =
     (case loadInner fs to_ZZ p e_inner_list of
        None \<Rightarrow> None
      | Some (Inl err) \<Rightarrow> Some (Inl err)
      | Some (Inr row) \<Rightarrow>
          (case init_polynomials fs to_ZZ primes_list e_inner_list of
             None \<Rightarrow> None
           | Some (Inl err) \<Rightarrow> Some (Inl err)
           | Some (Inr others) \<Rightarrow> Some (Inr (row # others))))"

text \<open>
  What the specification says of a file (section 6): the coefficient strings are the
  pieces of the contents between white space, in ascending degree order.
\<close>

fun split_ws :: "string \<Rightarrow> string \<Rightarrow> string list" where
  "split_ws [] piece = (if piece = [] then [] else [piece])"
| "split_ws (c # cs) piece =
     (if isspace c then (if piece = [] then split_ws cs [] else piece # split_ws cs [])
      else split_ws cs (piece @ [c]))"

text \<open>
  A reading of decimal integers for the examples: an optional minus sign followed by
  at least one digit.
\<close>

definition decimal_value :: "string \<Rightarrow> nat option" where
  "decimal_value s =
     (if s \<noteq> [] \<and> (\<forall>c \<in> set s. 48 \<le> (of_char c :: nat) \<and> (of_char c :: nat) \<le> 57)
      then Some (foldl (\<lambda>n c. 10 * n + (of_char c - 48)) 0 s)
      else None)"

definition decimal :: "string \<Rightarrow> int option" where
  "decimal s =
     (case s of
        [] \<Rightarrow> None
      | c # cs \<Rightarrow>
          if c = CHR ''-'' then map_option (\<lambda>n. - int n) (decimal_value cs)
          else map_option int (decimal_value s))"

section \<open>Double-precision arithmetic\<close>

text \<open>
  The type \<^verbatim>\<open>double\<close> of \<^verbatim>\<open>setAE\<close> is the IEEE 754 binary64 format. Its values are
  read as real numbers, and every arithmetic operation and every conversion from
  \<^verbatim>\<open>long\<close> rounds its exact result to the nearest number with a significand of 53
  bits, a tie going to the even significand. The range of the exponent is not
  modelled: the numbers of \<^verbatim>\<open>setAE\<close> are powers of \<open>p\<close> below \<open>2\<^sup>3\<^sup>0\<close>, their inverses and
  products of these with the bound of the context.

  \<open>pow2 e\<close> is \<open>2\<^sup>e\<close>, and \<open>ilog2 x\<close> is the exponent of a positive \<open>x\<close>, the integer
  \<open>e\<close> with \<open>2\<^sup>e \<le> x < 2\<^sup>e\<^sup>+\<^sup>1\<close>, computed on integers.
\<close>

definition pow2 :: "int \<Rightarrow> real" where
  "pow2 e = (if 0 \<le> e then 2 ^ nat e else 1 / 2 ^ nat (- e))"

definition ilog2 :: "real \<Rightarrow> int" where
  "ilog2 x = (if 1 \<le> x then bitlen \<lfloor>x\<rfloor> - 1 else - bitlen (\<lceil>1 / x\<rceil> - 1))"

definition round_even :: "real \<Rightarrow> int" where
  "round_even x =
     (let f = \<lfloor>x\<rfloor>; r = x - real_of_int f
      in if r < 1 / 2 then f else if 1 / 2 < r then f + 1 else if even f then f else f + 1)"

definition double :: "real \<Rightarrow> real" where
  "double x =
     (if x = 0 then 0
      else (let ulp = pow2 (ilog2 \<bar>x\<bar> - 52) in real_of_int (round_even (x / ulp)) * ulp))"

text \<open>
  \<^verbatim>\<open>fsquare(x)\<close> (\<^verbatim>\<open>NumbTh.h\<close>, not among the files) is the square \<^verbatim>\<open>x * x\<close> of a
  \<^verbatim>\<open>double\<close>.
\<close>

definition fsquare :: "real \<Rightarrow> real" where
  "fsquare x = double (x * x)"

section \<open>Choosing \<open>e\<close> and \<open>e'\<close> (\<^verbatim>\<open>RecryptData::setAE\<close>)\<close>

text \<open>
  \<^verbatim>\<open>compute_fudge(p2ePrime, p2e)\<close>: the arguments are converted to \<^verbatim>\<open>double\<close>, and the
  quotient and the sum are rounded.
\<close>

definition compute_fudge :: "int \<Rightarrow> int \<Rightarrow> real" where
  "compute_fudge p2ePrime p2e =
     (let eps = (if 1 < p2ePrime
                 then (if p2ePrime mod 2 = 0
                       then double (1 / fsquare (double (real_of_int p2ePrime)))
                       else double (1 / double (real_of_int p2e)))
                 else 0)
      in double (1 + eps))"

text \<open>
  The first loop of \<^verbatim>\<open>setAE\<close> computes \<open>e_bnd\<close> together with \<open>p ^ e_bnd\<close>. Its
  condition does not bound the number of rounds by itself (for \<open>p = 1\<close> the loop
  never ends), so it is a partial function. The prime of a context is at least 2; for
  a positive \<open>p\<close> the division of the source is \<open>div\<close>.
\<close>

partial_function (option) e_bnd_loop :: "int \<Rightarrow> int \<Rightarrow> int \<Rightarrow> (int \<times> int) option" where
  "e_bnd_loop p e_bnd p2e_bnd =
     (if p2e_bnd \<le> (2 ^ 30 - 2) div p then e_bnd_loop p (e_bnd + 1) (p2e_bnd * p)
      else Some (e_bnd, p2e_bnd))"

text \<open>
  The test of the second loop, \<^verbatim>\<open>power_long(p, e) < frstTerm * coeff_bound * 2\<close>, negated:
  the left side and \<^verbatim>\<open>frstTerm\<close> are converted to \<^verbatim>\<open>double\<close>, and the two products are
  rounded.
\<close>

definition start_bound_holds :: "int \<Rightarrow> int \<Rightarrow> real \<Rightarrow> int \<Rightarrow> bool" where
  "start_bound_holds p frstTerm coeff_bound e =
     (\<not> double (real_of_int (power_long p e))
          < double (double (double (real_of_int frstTerm) * coeff_bound) * 2))"

text \<open>
  The second loop: starting from \<open>r + 1\<close>, the smallest \<open>e\<close> that passes this test, or
  \<open>e_bnd + 1\<close> when there is none up to \<open>e_bnd\<close>.
\<close>

function first_e_loop :: "int \<Rightarrow> int \<Rightarrow> int \<Rightarrow> real \<Rightarrow> int \<Rightarrow> int" where
  "first_e_loop p e_bnd frstTerm coeff_bound e =
     (if e \<le> e_bnd \<and> \<not> start_bound_holds p frstTerm coeff_bound e
      then first_e_loop p e_bnd frstTerm coeff_bound (e + 1)
      else e)"
  by pat_completeness auto
termination
  by (relation "measure (\<lambda>(p, e_bnd, frstTerm, coeff_bound, e). nat (e_bnd + 1 - e))") auto

text \<open>
  The test of the inner loop of the search,
  \<^verbatim>\<open>p2eTry >= (p2ePrimeTry * fudge + frstTerm) * coeff_bound * 2\<close>: the three integers are
  converted to \<^verbatim>\<open>double\<close>, and each product and the sum are rounded.
\<close>

definition bound_holds :: "int \<Rightarrow> int \<Rightarrow> int \<Rightarrow> real \<Rightarrow> bool" where
  "bound_holds p2ePrimeTry p2eTry frstTerm coeff_bound =
     (let fudge = compute_fudge p2ePrimeTry p2eTry
      in double (double (double (double (double (real_of_int p2ePrimeTry) * fudge)
                                 + double (real_of_int frstTerm))
                         * coeff_bound)
                 * 2)
         \<le> double (real_of_int p2eTry))"

text \<open>
  The inner loop of the search, for one candidate \<open>ePrimeTry\<close>; \<open>e\<close> and \<open>ePrime\<close> are
  the best pair so far. It returns the value of \<open>eTry\<close> at which it stops, by its
  condition or by the \<^verbatim>\<open>break\<close>.
\<close>

function eTry_loop ::
  "int \<Rightarrow> int \<Rightarrow> int \<Rightarrow> real \<Rightarrow> int \<Rightarrow> int \<Rightarrow> int \<Rightarrow> int \<Rightarrow> int \<Rightarrow> int" where
  "eTry_loop p e_bnd frstTerm coeff_bound e ePrime ePrimeTry p2ePrimeTry eTry =
     (if eTry \<le> e_bnd \<and> eTry - ePrimeTry < e - ePrime
      then (let p2eTry = power_long p eTry
            in if bound_holds p2ePrimeTry p2eTry frstTerm coeff_bound
               then eTry
               else eTry_loop p e_bnd frstTerm coeff_bound e ePrime ePrimeTry p2ePrimeTry (eTry + 1))
      else eTry)"
  by pat_completeness auto
termination
  by (relation "measure (\<lambda>(p, e_bnd, frstTerm, coeff_bound, e, ePrime, ePrimeTry, p2ePrimeTry, eTry).
                    nat (e_bnd + 1 - eTry))") auto

text \<open>The outer loop of the search; its state is the best pair \<open>(e, ePrime)\<close>.\<close>

function ePrimeTry_loop ::
  "int \<Rightarrow> int \<Rightarrow> int \<Rightarrow> int \<Rightarrow> real \<Rightarrow> int \<Rightarrow> int \<times> int \<Rightarrow> int \<times> int" where
  "ePrimeTry_loop p r e_bnd frstTerm coeff_bound ePrimeTry (e, ePrime) =
     (if ePrimeTry \<le> e_bnd
      then (let p2ePrimeTry = power_long p ePrimeTry;
                eTry = max (r + 1) (ePrimeTry + 1);
                eTry = eTry_loop p e_bnd frstTerm coeff_bound e ePrime ePrimeTry p2ePrimeTry eTry
            in ePrimeTry_loop p r e_bnd frstTerm coeff_bound (ePrimeTry + 1)
                 (if eTry \<le> e_bnd \<and> eTry - ePrimeTry < e - ePrime then (eTry, ePrimeTry)
                  else (e, ePrime)))
      else (e, ePrime))"
  by pat_completeness auto
termination
  by (relation "measure (\<lambda>(p, r, e_bnd, frstTerm, coeff_bound, ePrimeTry, best).
                    nat (e_bnd + 1 - ePrimeTry))") auto

text \<open>
  \<^verbatim>\<open>setAE(e, ePrime, context)\<close>: the context gives \<open>p\<close>, \<open>p^r\<close>, \<open>r\<close> and the bound
  \<^verbatim>\<open>boundForRecryption()\<close>; the result is the pair \<open>(e, ePrime)\<close> or the exception.
\<close>

definition setAE :: "int \<Rightarrow> int \<Rightarrow> int \<Rightarrow> real \<Rightarrow> (error + int \<times> int) option" where
  "setAE p p2r r coeff_bound =
     (let frstTerm = 2 * p2r + 2
      in case e_bnd_loop p 0 1 of
           None \<Rightarrow> None
         | Some (e_bnd, p2e_bnd) \<Rightarrow>
             (let ePrime = 0;
                  e = first_e_loop p e_bnd frstTerm coeff_bound (r + 1)
              in if e_bnd < e then Some (Inl (RuntimeError ''setAE: cannot find suitable e''))
                 else Some (Inr (ePrimeTry_loop p r e_bnd frstTerm coeff_bound 1 (e, ePrime)))))"

text \<open>
  The bound of the specification (section 4.4, step 1) for a pair \<open>(e', e)\<close>, as the
  code tests it: \<open>p^e\<close> against \<open>2 * (fudge * p^e' + 2 * p^r + 2) * coeffBound\<close>, without
  strictness and in the arithmetic of \<^verbatim>\<open>double\<close>.
\<close>

definition noise_bound_holds :: "int \<Rightarrow> int \<Rightarrow> real \<Rightarrow> int \<Rightarrow> int \<Rightarrow> bool" where
  "noise_bound_holds p p2r coeff_bound ePrime e =
     bound_holds (power_long p ePrime) (power_long p e) (2 * p2r + 2) coeff_bound"

text \<open>
  The pairs the search of \<^verbatim>\<open>setAE\<close> runs over: \<open>e'\<close> in \<open>[1, e_bnd]\<close>, \<open>e\<close> in
  \<open>[max (r + 1) (e' + 1), e_bnd]\<close>, with the bound holding.
\<close>

definition setAE_candidate :: "int \<Rightarrow> int \<Rightarrow> int \<Rightarrow> real \<Rightarrow> int \<Rightarrow> int \<Rightarrow> int \<Rightarrow> bool" where
  "setAE_candidate p p2r r coeff_bound e_bnd ePrime e =
     (1 \<le> ePrime \<and> ePrime \<le> e_bnd \<and> max (r + 1) (ePrime + 1) \<le> e \<and> e \<le> e_bnd
      \<and> noise_bound_holds p p2r coeff_bound ePrime e)"

text \<open>The loops are unfolded by hand in the proofs; the first one is run by its equation.\<close>

declare e_bnd_loop.simps [code]

declare first_e_loop.simps [simp del] eTry_loop.simps [simp del] ePrimeTry_loop.simps [simp del]

section \<open>Parameters of the Paterson-Stockmeyer evaluation (\<^verbatim>\<open>getBestParameters\<close>)\<close>

text \<open>
  The C library's \<^verbatim>\<open>lround\<close>: the nearest integer, halfway cases away from zero.
  \<^verbatim>\<open>double\<close> is read as the real numbers.
\<close>

definition lround :: "real \<Rightarrow> int" where
  "lround x = (if 0 \<le> x then \<lfloor>x + 1 / 2\<rfloor> else \<lceil>x - 1 / 2\<rceil>)"

text \<open>
  \<^verbatim>\<open>ceiling(number)\<close> and \<^verbatim>\<open>flooring(number)\<close> of \<^verbatim>\<open>polyEval.cpp\<close>; the first is named
  \<open>ceiling_dbl\<close> here, next to the ceiling function of the logic.
\<close>

definition ceiling_dbl :: "real \<Rightarrow> int" where
  "ceiling_dbl number = lround (number + 49999 / 100000)"

definition flooring :: "real \<Rightarrow> int" where
  "flooring number = lround (number - 49999 / 100000)"

text \<open>
  \<^verbatim>\<open>floorPowerOfTwo(number)\<close>: the \<^verbatim>\<open>double\<close> returned by \<^verbatim>\<open>std::pow\<close> is converted to
  \<^verbatim>\<open>long\<close>, which drops the fraction of a positive number.
\<close>

definition floorPowerOfTwo :: "int \<Rightarrow> int" where
  "floorPowerOfTwo number
     = \<lfloor>2 powr real_of_int (flooring (ln (real_of_int number) / ln 2))\<rfloor>"

definition isPowerOfTwo :: "int \<Rightarrow> bool" where
  "isPowerOfTwo number = (floorPowerOfTwo number = number)"

text \<open>
  Polynomials are coefficient lists, as above; \<^verbatim>\<open>deg\<close> of the zero polynomial is \<open>-1\<close>,
  and \<^verbatim>\<open>coeff\<close> is zero outside the list.
\<close>

definition deg :: "int list \<Rightarrow> int" where
  "deg f = int (length (normalize_ZZX f)) - 1"

definition coeff :: "int list \<Rightarrow> int \<Rightarrow> int" where
  "coeff f i = (if 0 \<le> i \<and> nat i < length f then f ! nat i else 0)"

text \<open>
  \<^verbatim>\<open>areOddPolynomials(poly_list)\<close>: no polynomial has a nonzero coefficient at an even
  index.
\<close>

definition areOddPolynomials :: "int list list \<Rightarrow> bool" where
  "areOddPolynomials poly_list
     = list_all (\<lambda>poly. list_all (\<lambda>index. \<not> (index mod 2 = 0 \<and> coeff poly index \<noteq> 0))
                          [0..deg poly]) poly_list"

text \<open>
  The result type \<^verbatim>\<open>PS_parameters\<close> with its fields \<^verbatim>\<open>m\<close>, \<^verbatim>\<open>k\<close>, \<^verbatim>\<open>multiplications\<close> and
  \<^verbatim>\<open>odd\<close>, as \<^verbatim>\<open>getBestParameters\<close> fills them; the fields carry the prefix \<open>PS_\<close>.
\<close>

record PS_parameters =
  PS_m :: int
  PS_k :: int
  PS_multiplications :: int
  PS_odd :: bool

text \<open>
  The first part of the loop body of \<^verbatim>\<open>getBestParameters\<close>, for one \<open>m\<close>: the parameter
  \<open>k\<close>, the number of multiplications of the baby step and the flag \<^verbatim>\<open>currentOdd\<close>.
  The flag \<^verbatim>\<open>odd\<close> is \<open>odd'\<close> here. The loop counter is never negative, so
  \<^verbatim>\<open>pow(2, m)\<close> is \<open>2 ^ nat m\<close>; the integer operands of \<^verbatim>\<open>/\<close> and \<^verbatim>\<open>%\<close> are never
  negative, so they are \<open>div\<close> and \<open>mod\<close>.
\<close>

definition babyStep :: "bool \<Rightarrow> bool \<Rightarrow> int \<Rightarrow> int \<Rightarrow> int \<times> int \<times> bool" where
  "babyStep lazy odd' d m =
     (let k = ceiling_dbl (real_of_int d / 2 ^ nat m)
      in if lazy
         then (k, (if k = 1 then m - 1 else (k - 1) div 2 + m), False)
         else (let nbMultiplications = (if m = 0 then k - 1 else k + m - 2)
               in if odd'
                  then (let (k_odd, nbMultiplicationsOdd) =
                              (if m = 0
                               then (k, k div 2 + flooring (ln (real_of_int k) / ln 2))
                               else (let k_odd = (if k mod 2 = 1 then k + 1 else k);
                                         remaining_exponent = k_odd - floorPowerOfTwo (k_odd - 1);
                                         k_odd = (if k_odd mod 4 = 0
                                                       \<and> \<not> isPowerOfTwo remaining_exponent
                                                  then k_odd + 2 else k_odd)
                                     in (k_odd, k_odd div 2
                                                + flooring (ln (real_of_int (k_odd - 1)) / ln 2)
                                                + m - 1)))
                        in if nbMultiplicationsOdd < nbMultiplications
                           then (k_odd, nbMultiplicationsOdd, True)
                           else (k, nbMultiplications, False))
                  else (k, nbMultiplications, False)))"

text \<open>
  The second part of the loop body: what one polynomial adds to the number of
  multiplications. The quotient \<^verbatim>\<open>deg(polynomial) / k\<close> is a division of integers, whose
  result is passed to \<^verbatim>\<open>ceiling\<close>.
\<close>

definition giantStep :: "bool \<Rightarrow> int \<Rightarrow> int list \<Rightarrow> int" where
  "giantStep lazy k polynomial =
     (ceiling_dbl (real_of_int (deg polynomial div k)) - 1)
     + (if lazy
        then 1 + (let deg_mod = deg polynomial mod k
                  in if deg_mod \<noteq> 0 \<and> deg_mod \<le> (k + 1) div 2 then - 1 else 0)
        else 0)"

text \<open>The candidate for one \<open>m\<close>: \<open>k\<close>, the number of multiplications, \<^verbatim>\<open>currentOdd\<close>.\<close>

definition candidate :: "int list list \<Rightarrow> bool \<Rightarrow> bool \<Rightarrow> int \<Rightarrow> int \<Rightarrow> int \<times> int \<times> bool" where
  "candidate polynomials lazy odd' d m =
     (let (k, nbMultiplications, currentOdd) = babyStep lazy odd' d m
      in (k,
          foldl (\<lambda>nbMultiplications polynomial. nbMultiplications + giantStep lazy k polynomial)
            nbMultiplications polynomials,
          currentOdd))"

text \<open>
  One round of the loop on the best parameters so far; \<open>-1\<close> multiplications stands
  for "none yet".
\<close>

definition bestStep ::
  "int list list \<Rightarrow> bool \<Rightarrow> bool \<Rightarrow> int \<Rightarrow> PS_parameters \<Rightarrow> int \<Rightarrow> PS_parameters" where
  "bestStep polynomials lazy odd' d best m =
     (let (k, nbMultiplications, currentOdd) = candidate polynomials lazy odd' d m
      in if PS_multiplications best = - 1 \<or> nbMultiplications < PS_multiplications best
         then \<lparr>PS_m = m, PS_k = k, PS_multiplications = nbMultiplications, PS_odd = currentOdd\<rparr>
         else best)"

text \<open>
  \<^verbatim>\<open>getBestParameters(polynomials, lazy)\<close>. For the empty list the maximal degree is 0 and
  the loop bound is computed from \<^verbatim>\<open>log(0)\<close>, which is left undefined here.
\<close>

definition getBestParameters :: "int list list \<Rightarrow> bool \<Rightarrow> error + PS_parameters" where
  "getBestParameters polynomials lazy =
     (if list_ex (\<lambda>polynomial. deg polynomial = - 1 \<or> deg polynomial = 0) polynomials
      then Inl (LogicError ''Degree should be positive.'')
      else (let d = foldl (\<lambda>d polynomial. max d (deg polynomial)) 0 polynomials;
                odd' = areOddPolynomials polynomials
            in if d = 0 then Inl (Undefined ''log(0)'')
               else Inr (foldl (bestStep polynomials lazy odd' d)
                           \<lparr>PS_m = 0, PS_k = 0, PS_multiplications = - 1, PS_odd = False\<rparr>
                           [0..ceiling_dbl (ln (real_of_int d) / ln 2)])))"

section \<open>The cost model of the parameter search\<close>

text \<open>
  The exact logarithms of the cost model: \<open>floor_log2 k\<close> is \<open>\<lfloor>log\<^sub>2 k\<rfloor>\<close> and
  \<open>ceil_log2 d\<close> is \<open>\<lceil>log\<^sub>2 d\<rceil>\<close> for positive arguments, computed on integers.
\<close>

definition floor_log2 :: "int \<Rightarrow> int" where
  "floor_log2 k = bitlen k - 1"

definition ceil_log2 :: "int \<Rightarrow> int" where
  "ceil_log2 d = int (ceillog2 (nat d))"

definition is_power2 :: "int \<Rightarrow> bool" where
  "is_power2 n = (2 ^ nat (floor_log2 n) = n)"

text \<open>
  The baby step of the cost model for the maximal degree \<open>d\<close> and one \<open>m\<close>: the
  parameter \<open>k\<close>, the number of multiplications and whether the variant for odd
  polynomials is used. The variant for odd polynomials is used without the lazy flag
  only, when all polynomials are odd and it needs fewer multiplications; for \<open>m > 0\<close>
  it replaces \<open>k\<close> by an even number.
\<close>

definition odd_k :: "int \<Rightarrow> int" where
  "odd_k k =
     (let k_even = (if k mod 2 = 1 then k + 1 else k)
      in if k_even mod 4 = 0 \<and> \<not> is_power2 (k_even - 2 ^ nat (floor_log2 (k_even - 1)))
         then k_even + 2 else k_even)"

definition baby_cost :: "bool \<Rightarrow> bool \<Rightarrow> int \<Rightarrow> int \<Rightarrow> int \<times> int \<times> bool" where
  "baby_cost lazy all_odd d m =
     (let k = \<lceil>real_of_int d / 2 ^ nat m\<rceil>;
          generic = (if m = 0 then k - 1 else k + m - 2);
          variant = (if m = 0 then k div 2 + floor_log2 k
                     else odd_k k div 2 + floor_log2 (odd_k k - 1) + m - 1)
      in if lazy then (k, (if k = 1 then m - 1 else (k - 1) div 2 + m), False)
         else if all_odd \<and> variant < generic then ((if m = 0 then k else odd_k k), variant, True)
         else (k, generic, False))"

text \<open>
  The giant step of the cost model for one polynomial of degree \<open>n\<close>. The quotient of
  \<open>n\<close> by \<open>k\<close> is a parameter \<open>quot\<close>.
\<close>

definition giant_cost :: "(int \<Rightarrow> int \<Rightarrow> int) \<Rightarrow> bool \<Rightarrow> int \<Rightarrow> int \<Rightarrow> int" where
  "giant_cost quot lazy k n =
     quot n k - 1
     + (if lazy then (if n mod k \<noteq> 0 \<and> n mod k \<le> (k + 1) div 2 then 0 else 1) else 0)"

text \<open>The parameters of the cost model for one \<open>m\<close>.\<close>

definition cost_model :: "(int \<Rightarrow> int \<Rightarrow> int) \<Rightarrow> int list list \<Rightarrow> bool \<Rightarrow> int \<Rightarrow> PS_parameters" where
  "cost_model quot polynomials lazy m =
     (let (k, baby, variant) = baby_cost lazy (areOddPolynomials polynomials)
                                 (Max (set (map deg polynomials))) m
      in \<lparr>PS_m = m, PS_k = k,
          PS_multiplications = baby + sum_list (map (\<lambda>f. giant_cost quot lazy k (deg f)) polynomials),
          PS_odd = variant\<rparr>)"

text \<open>
  The search over a list of values of \<open>m\<close>, in which \<open>-1\<close> multiplications stands for
  "none yet".
\<close>

definition search :: "(int \<Rightarrow> PS_parameters) \<Rightarrow> int list \<Rightarrow> PS_parameters" where
  "search c ms =
     foldl (\<lambda>best m. if PS_multiplications best = - 1
                         \<or> PS_multiplications (c m) < PS_multiplications best
                      then c m else best)
       \<lparr>PS_m = 0, PS_k = 0, PS_multiplications = - 1, PS_odd = False\<rparr> ms"

text \<open>
  The count of claim C6, as the specification words it: the baby step costs \<open>k - 1\<close>,
  or \<open>\<lfloor>k / 2\<rfloor> + \<lfloor>log\<^sub>2 k\<rfloor>\<close> when all polynomials are odd, and each polynomial adds
  \<open>\<lceil>deg / k\<rceil> - 1\<close>, with the adjustment of the lazy flag.
\<close>

definition claimed_count :: "int list list \<Rightarrow> bool \<Rightarrow> int \<Rightarrow> int" where
  "claimed_count polynomials lazy m =
     (let k = \<lceil>real_of_int (Max (set (map deg polynomials))) / 2 ^ nat m\<rceil>
      in (if areOddPolynomials polynomials then k div 2 + floor_log2 k else k - 1)
         + sum_list (map (\<lambda>f. giant_cost (\<lambda>n k. \<lceil>real_of_int n / real_of_int k\<rceil>) lazy k (deg f))
                       polynomials))"

chapter \<open>Properties\<close>

section \<open>Handle multiplication\<close>

text \<open>
  Claim C8, as the code has it. For two handles neither of which is "one", \<open>mul\<close>
  succeeds exactly when the powers of \<open>X\<close> agree, the key ids agree and the key id
  is not the error value \<open>-1\<close>; on success the result is \<open>(a + a', t, k)\<close>, on
  failure the flag is false and the key id of the result is \<open>-1\<close>. When one of
  the inputs is "one", the result is a copy of the other input, whatever its
  power of \<open>X\<close> and key id are, and the flag tells whether that key id is
  non-negative.
\<close>

theorem mul_handles:
  "mul this a b =
    (if isOne a then (0 \<le> secretKeyID b, b)
     else if isOne b then (0 \<le> secretKeyID a, a)
     else if powerOfX a = powerOfX b \<and> secretKeyID a = secretKeyID b \<and> secretKeyID a \<noteq> - 1
       then (True, \<lparr>powerOfS = powerOfS a + powerOfS b,
                    powerOfX = powerOfX a, secretKeyID = secretKeyID a\<rparr>)
     else (False, this\<lparr>secretKeyID := - 1\<rparr>))"
  by (simp add: mul_def)

theorem mul_handles_witness:
  "mul \<lparr>powerOfS = 0, powerOfX = 1, secretKeyID = 0\<rparr>
       \<lparr>powerOfS = 1, powerOfX = 3, secretKeyID = 0\<rparr>
       \<lparr>powerOfS = 2, powerOfX = 3, secretKeyID = 0\<rparr>
   = (True, \<lparr>powerOfS = 3, powerOfX = 3, secretKeyID = 0\<rparr>)"
  using mul_handles [of "\<lparr>powerOfS = 0, powerOfX = 1, secretKeyID = 0\<rparr>"
                        "\<lparr>powerOfS = 1, powerOfX = 3, secretKeyID = 0\<rparr>"
                        "\<lparr>powerOfS = 2, powerOfX = 3, secretKeyID = 0\<rparr>"]
  by (simp add: isOne_def)

text \<open>
  The claim as written fails when an input is "one": the product of the constant
  handle \<open>(0, 1, 0)\<close> with \<open>(1, 3, 0)\<close> succeeds although the powers of \<open>X\<close> differ.
\<close>

theorem mul_one_counterexample:
  "fst (mul \<lparr>powerOfS = 0, powerOfX = 1, secretKeyID = 0\<rparr>
            \<lparr>powerOfS = 0, powerOfX = 1, secretKeyID = 0\<rparr>
            \<lparr>powerOfS = 1, powerOfX = 3, secretKeyID = 0\<rparr>)
   \<and> powerOfX \<lparr>powerOfS = 0, powerOfX = 1, secretKeyID = 0\<rparr>
       \<noteq> powerOfX \<lparr>powerOfS = 1, powerOfX = 3, secretKeyID = 0\<rparr>"
  by (simp add: mul_def isOne_def)

section \<open>The hard-coded cascade computes the reference polynomials\<close>

lemma multivariate_plaintext:
  "rowComputationMultivariate (plaintext_env p divP composition builtin) x ctxtEval rowSize
     = ctxtEval @ cascade_spec x rowSize"
  unfolding rowComputationMultivariate_def cascade_spec_def plaintext_env_def Let_def
  apply (simp add: on_first_def nth_append list_update_append f2_def f4_def f8_def f16_def
                   power2_eq_square power4_eq_xxxx)
  apply (simp add: algebra_simps)
  done

text \<open>
  Claim C1. On plaintexts, \<^verbatim>\<open>rowComputationMultivariate\<close> appends exactly the values
  at \<open>x\<close> of the reference polynomials \<open>f2\<close>, \<open>f4\<close>, \<open>f8\<close>, \<open>f16\<close> with the precisions
  2, 4, 8, 16, those that the row size asks for (from row size 2, 3, 5 and 9 on).
  \<^verbatim>\<open>rowComputationGeneral\<close> takes this branch whenever \<open>p = 2\<close>, the precision of the
  stage's input is 1 and the stage's target precision is at most 16; with the default
  list of splitting values \<open>[1]\<close> and a row of size at most 16 the whole row is the
  input followed by the cascade.
\<close>

theorem rowComputation_multivariate_refines:
  fixes x :: "'a::comm_ring_1"
  shows "rowComputationMultivariate (plaintext_env p divP composition builtin) x ctxtEval rowSize
           = ctxtEval @ cascade_spec x rowSize
       \<and> (e_inner \<le> 16 \<longrightarrow>
            rowComputationStages (plaintext_env 2 divP composition builtin) triangleSize rowSize lazy
              (1 # e_inner # es) ctxtEval
            = rowComputationStages (plaintext_env 2 divP composition builtin) triangleSize rowSize lazy
              (e_inner # es) (ctxtEval @ cascade_spec (fst (last ctxtEval)) (min rowSize e_inner)))
       \<and> (rowSize \<le> 16 \<longrightarrow>
            rowComputationGeneral (plaintext_env 2 divP composition builtin) x ctxtEval
              triangleSize rowSize lazy [1]
            = Inr (ctxtEval @ (x, 1) # cascade_spec x rowSize))"
proof -
  have p2: "getP (plaintext_env 2 divP composition builtin) = 2"
    by (simp add: plaintext_env_def)
  show ?thesis
    by (simp add: multivariate_plaintext rowComputationGeneral_def p2)
qed

theorem rowComputation_multivariate_refines_witness:
  "rowComputationGeneral (plaintext_env 2 (\<lambda>x. x div 2) (\<lambda>c ev t s l e. Inr ev) (\<lambda>c b r e. ([], c)))
     (3::int) [] 4 9 False [1]
   = Inr [(3, 1), (9, 2), (81, 4), (113359617, 8), (- 179810515013493587967, 16)]"
  using rowComputation_multivariate_refines
          [of 2 "\<lambda>x. x div 2" "\<lambda>c ev t s l e. Inr ev" "\<lambda>c b r e. ([], c)" "3::int" "[]" 9 1 4 False "[]"]
  by (simp add: cascade_spec_def f2_def f4_def f8_def f16_def)

section \<open>The correction for \<open>p = 2\<close> and the final negation\<close>

text \<open>
  Claim C4, as the code has it. When \<open>p = 2\<close> the constant
  \<^verbatim>\<open>lround(pow(p, botHigh) / 2)\<close> is added to the input before the rows are computed;
  for \<open>botHigh \<ge> 1\<close> it is \<open>2 ^ botHigh / 2\<close>. For every other \<open>p\<close> the rows are
  computed on the input as it is. The result of the rows is negated for every \<open>p\<close>.
\<close>

theorem customExtractDigitsThin_correction:
  "(getP env = 2 \<longrightarrow>
      customExtractDigitsThin env ctxt botHigh r lazy e_inner_compose_list =
        (case trapezoid env (addConstant env (lround_half_pow2 botHigh) ctxt)
                botHigh r lazy e_inner_compose_list of
           Inl err \<Rightarrow> Inl err
         | Inr result \<Rightarrow> Inr (negate env result)))
   \<and> (getP env \<noteq> 2 \<longrightarrow>
      customExtractDigitsThin env ctxt botHigh r lazy e_inner_compose_list =
        (case trapezoid env ctxt botHigh r lazy e_inner_compose_list of
           Inl err \<Rightarrow> Inl err
         | Inr result \<Rightarrow> Inr (negate env result)))
   \<and> (1 \<le> botHigh \<longrightarrow> 2 * lround_half_pow2 botHigh = 2 ^ nat botHigh)"
proof -
  have "1 \<le> botHigh \<Longrightarrow> 2 * (2::int) ^ nat (botHigh - 1) = 2 ^ nat botHigh"
    by (metis Suc_nat_eq_nat_zadd1 add.commute diff_add_cancel diff_ge_0_iff_ge power_Suc)
  then show ?thesis
    by (simp add: customExtractDigitsThin_def lround_half_pow2_def)
qed

theorem customExtractDigitsThin_correction_witness:
  "customExtractDigitsThin
     (plaintext_env 2 (\<lambda>x. x div 2) (\<lambda>c ev t s l e. Inr ev) (\<lambda>c b r e. ([], c)))
     (5::int) 0 1 False [[1]] = Inr (- 6)
   \<and> customExtractDigitsThin
     (plaintext_env 3 (\<lambda>x. x div 3) (\<lambda>c ev t s l e. Inr ev) (\<lambda>c b r e. ([], c)))
     (5::int) 0 1 False [[1]] = Inr (- 5)"
  using customExtractDigitsThin_correction
          [of "plaintext_env 2 (\<lambda>x. x div 2) (\<lambda>c ev t s l e. Inr ev) (\<lambda>c b r e. ([], c))"
              "5::int" 0 1 False "[[1]]"]
        customExtractDigitsThin_correction
          [of "plaintext_env 3 (\<lambda>x. x div 3) (\<lambda>c ev t s l e. Inr ev) (\<lambda>c b r e. ([], c))"
              "5::int" 0 1 False "[[1]]"]
  by (simp add: plaintext_env_def trapezoid_def lround_half_pow2_def)

text \<open>
  The claim as written says that for \<open>p \<noteq> 2\<close> the result is not negated. For \<open>p = 3\<close>,
  one row, the input \<open>4\<close> and the cube as the row's polynomial, the rows give \<open>-20\<close>
  and the function returns \<open>20\<close>.
\<close>

theorem customExtractDigitsThin_negates_counterexample:
  "trapezoid
     (plaintext_env 3 (\<lambda>x. x div 3) (\<lambda>c ev t s l e. Inr (ev @ [(c ^ 3, s)])) (\<lambda>c b r e. ([], c)))
     (4::int) 1 1 False [[1]] = Inr (- 20)
   \<and> customExtractDigitsThin
     (plaintext_env 3 (\<lambda>x. x div 3) (\<lambda>c ev t s l e. Inr (ev @ [(c ^ 3, s)])) (\<lambda>c b r e. ([], c)))
     (4::int) 1 1 False [[1]] = Inr 20"
  by (simp add: customExtractDigitsThin_def trapezoid_def plaintext_env_def
                rowComputationGeneral_def)

section \<open>The warning of \<^verbatim>\<open>extractDigitsThin\<close>\<close>

text \<open>
  Claim C7, as the code has it. When \<open>e' < r\<close> the warning is the first line printed;
  then the built-in extraction runs if \<open>our_version\<close> is off, and a
  \<^verbatim>\<open>RuntimeError\<close> is thrown if it is on. When \<open>e' \<ge> r\<close> this warning is not printed
  and the extraction chosen by \<open>our_version\<close> runs.
\<close>

theorem extractDigitsThin_warning:
  "(ePrime < r \<longrightarrow>
      hd (fst (extractDigitsThin env ctxt botHigh r ePrime our_version lazy e_inner_compose_list))
        = WarnUnfortunateParameters ePrime r
      \<and> snd (extractDigitsThin env ctxt botHigh r ePrime our_version lazy e_inner_compose_list)
        = (if our_version then Inl (RuntimeError ''Bad parameter choice. See warning above.'')
           else Inr (snd (builtinExtractDigits env ctxt botHigh r ePrime))))
   \<and> (r \<le> ePrime \<longrightarrow>
      (\<forall>a b. WarnUnfortunateParameters a b
          \<notin> set (fst (extractDigitsThin env ctxt botHigh r ePrime our_version lazy
                          e_inner_compose_list)))
      \<and> snd (extractDigitsThin env ctxt botHigh r ePrime our_version lazy e_inner_compose_list)
        = (if our_version
           then customExtractDigitsThin env ctxt botHigh r lazy e_inner_compose_list
           else Inr (snd (builtinExtractDigits env ctxt botHigh r ePrime))))"
  by (auto simp: extractDigitsThin_def Let_def split: prod.splits)

theorem extractDigitsThin_warning_witness:
  "extractDigitsThin
     (plaintext_env 2 (\<lambda>x. x div 2) (\<lambda>c ev t s l e. Inr ev) (\<lambda>c b r e. ([], c)))
     (173::int) 4 4 3 False False [[1]]
   = ([WarnUnfortunateParameters 3 4, StartingBuiltinDigitExtraction], Inr 173)"
  using extractDigitsThin_warning
          [of 3 4 "plaintext_env 2 (\<lambda>x. x div 2) (\<lambda>c ev t s l e. Inr ev) (\<lambda>c b r e. ([], c))"
              "173::int" 4 False False "[[1]]"]
  by (simp add: extractDigitsThin_def plaintext_env_def)

text \<open>
  The claim as written says the extraction proceeds after the warning; with
  \<open>our_version\<close> on, \<open>e' = 3\<close> and \<open>r = 4\<close> the call ends in the exception.
\<close>

theorem extractDigitsThin_throws_counterexample:
  "extractDigitsThin
     (plaintext_env 2 (\<lambda>x. x div 2) (\<lambda>c ev t s l e. Inr ev) (\<lambda>c b r e. ([], c)))
     (173::int) 4 4 3 True False [[1]]
   = ([WarnUnfortunateParameters 3 4],
      Inl (RuntimeError ''Bad parameter choice. See warning above.''))"
  by (simp add: extractDigitsThin_def plaintext_env_def)

section \<open>Rounding the coefficients to multiples of \<open>p^e'\<close>\<close>

lemma makeDivisibleCoeff_correct:
  fixes z q p2e p :: int
  assumes "1 < p2e" and "q mod p2e = 1" and "p = 2 \<longrightarrow> even p2e"
  shows "\<exists>v. makeDivisibleCoeff p p2e q random z drawn =
               (z + q * v, v, if p = 2 \<and> z mod p2e = p2e div 2 then drawn + 1 else drawn)
           \<and> p2e dvd z + q * v \<and> 2 * \<bar>v\<bar> \<le> p2e \<and> p2e dvd z + v"
proof -
  define m where "m = z mod p2e"
  define b where "b = random drawn"
  define v where "v = (if p2e div 2 < m \<or> (p = 2 \<and> m = p2e div 2 \<and> b) then p2e - m else - m)"
  have m: "0 \<le> m" "m < p2e" using assms(1) by (simp_all add: m_def)
  have vm: "v = p2e - m \<or> v = - m"
    by (simp add: v_def)
  have "(m + v) mod p2e = 0"
    using vm by auto
  then have zv: "(z + v) mod p2e = 0"
    unfolding m_def by (metis mod_add_left_eq)
  have "(z + q * v) mod p2e = (z + (q mod p2e) * v) mod p2e"
    by (metis mod_add_right_eq mod_mult_left_eq)
  then have zqv: "(z + q * v) mod p2e = 0"
    using zv assms(2) by simp
  have bound: "2 * \<bar>v\<bar> \<le> p2e"
  proof (cases "p2e div 2 < m")
    case True
    then have "v = p2e - m" by (simp add: v_def)
    then show ?thesis using True \<open>m < p2e\<close> by linarith
  next
    case False
    show ?thesis
    proof (cases "p = 2 \<and> m = p2e div 2 \<and> b")
      case True
      then have "v = p2e - m" by (simp add: v_def)
      moreover have "even p2e" using True assms(3) by simp
      ultimately show ?thesis using True \<open>0 \<le> m\<close> by (auto elim!: evenE)
    next
      case F2: False
      then have "v = - m" using False by (auto simp add: v_def)
      then show ?thesis using False \<open>0 \<le> m\<close> by linarith
    qed
  qed
  have "makeDivisibleCoeff p p2e q random z drawn =
               (z + q * v, v, if p = 2 \<and> z mod p2e = p2e div 2 then drawn + 1 else drawn)"
    unfolding makeDivisibleCoeff_def Let_def v_def m_def b_def by auto
  moreover have "p2e dvd z + q * v" "p2e dvd z + v"
    using zqv zv by (simp_all only: dvd_eq_mod_eq_0)
  ultimately show ?thesis
    using bound by blast
qed


lemma makeDivisibleLoop_correct:
  assumes "1 < p2e" and "q mod p2e = 1" and "p = 2 \<longrightarrow> even p2e"
  shows "\<exists>pwrfl' vvec.
           makeDivisibleLoop p p2e q random pwrfl drawn =
             Inr (pwrfl', vvec,
                  drawn + (if p = 2 then length (filter (\<lambda>z. z mod p2e = p2e div 2) pwrfl) else 0))
         \<and> length pwrfl' = length pwrfl \<and> length vvec = length pwrfl
         \<and> (\<forall>i < length pwrfl.
               pwrfl' ! i = pwrfl ! i + vvec ! i * q
             \<and> 2 * \<bar>vvec ! i\<bar> \<le> p2e
             \<and> p2e dvd pwrfl' ! i
             \<and> p2e dvd pwrfl ! i + vvec ! i)"
proof (induction pwrfl arbitrary: drawn)
  case Nil
  show ?case by simp
next
  case (Cons z pwrfl)
  define drawn1 where "drawn1 = (if p = 2 \<and> z mod p2e = p2e div 2 then drawn + 1 else drawn)"
  obtain v where
    st: "makeDivisibleCoeff p p2e q random z drawn = (z + q * v, v, drawn1)"
        "p2e dvd z + q * v" "2 * \<bar>v\<bar> \<le> p2e" "p2e dvd z + v"
    using makeDivisibleCoeff_correct [OF assms, of random z drawn] unfolding drawn1_def by blast
  obtain pwrfl' vvec where
    ih: "makeDivisibleLoop p p2e q random pwrfl drawn1 =
             Inr (pwrfl', vvec,
                  drawn1 + (if p = 2 then length (filter (\<lambda>z. z mod p2e = p2e div 2) pwrfl) else 0))"
        "length pwrfl' = length pwrfl" "length vvec = length pwrfl"
        "\<forall>i < length pwrfl.
               pwrfl' ! i = pwrfl ! i + vvec ! i * q
             \<and> 2 * \<bar>vvec ! i\<bar> \<le> p2e
             \<and> p2e dvd pwrfl' ! i
             \<and> p2e dvd pwrfl ! i + vvec ! i"
    using Cons.IH [of drawn1] by blast
  have unfold: "makeDivisibleLoop p p2e q random (z # pwrfl) drawn =
      Inr ((z + q * v) # pwrfl', v # vvec,
           drawn1 + (if p = 2 then length (filter (\<lambda>z. z mod p2e = p2e div 2) pwrfl) else 0))"
    by (simp add: st(1,2) ih(1))
  have cnt: "drawn1 + (if p = 2 then length (filter (\<lambda>z. z mod p2e = p2e div 2) pwrfl) else 0)
      = drawn + (if p = 2 then length (filter (\<lambda>z. z mod p2e = p2e div 2) (z # pwrfl)) else 0)"
    by (simp add: drawn1_def)
  have each: "\<forall>i < length (z # pwrfl).
               ((z + q * v) # pwrfl') ! i = (z # pwrfl) ! i + (v # vvec) ! i * q
             \<and> 2 * \<bar>(v # vvec) ! i\<bar> \<le> p2e
             \<and> p2e dvd ((z + q * v) # pwrfl') ! i
             \<and> p2e dvd (z # pwrfl) ! i + (v # vvec) ! i"
  proof (intro allI impI)
    fix i assume "i < length (z # pwrfl)"
    show "((z + q * v) # pwrfl') ! i = (z # pwrfl) ! i + (v # vvec) ! i * q
             \<and> 2 * \<bar>(v # vvec) ! i\<bar> \<le> p2e
             \<and> p2e dvd ((z + q * v) # pwrfl') ! i
             \<and> p2e dvd (z # pwrfl) ! i + (v # vvec) ! i"
    proof (cases i)
      case 0
      then show ?thesis using st(2,3,4) by (simp add: mult.commute)
    next
      case (Suc j)
      with \<open>i < length (z # pwrfl)\<close> have "j < length pwrfl" by simp
      from ih(4) [rule_format, OF this] show ?thesis unfolding Suc nth_Cons_Suc by blast
    qed
  qed
  have "makeDivisibleLoop p p2e q random (z # pwrfl) drawn =
      Inr ((z + q * v) # pwrfl', v # vvec,
           drawn + (if p = 2 then length (filter (\<lambda>z. z mod p2e = p2e div 2) (z # pwrfl)) else 0))"
    using unfold cnt by (rule trans [OF _ arg_cong])
  moreover have "length ((z + q * v) # pwrfl') = length (z # pwrfl)"
    and "length (v # vvec) = length (z # pwrfl)"
    using ih(2,3) by simp_all
  ultimately show ?case
    using each by blast
qed

text \<open>
  The value added to a coefficient, in units of \<open>q\<close>: a remainder above \<open>p2e / 2\<close> is
  rounded up, a remainder equal to \<open>p2e / 2\<close> is rounded up for \<open>p = 2\<close> when the next
  random bit is set, and every other remainder is rounded down. The random bit of a
  coefficient is the one after those drawn for the coefficients before it.
\<close>

lemma makeDivisibleCoeff_value:
  "makeDivisibleCoeff p p2e q random z drawn
   = (let v = (if p2e div 2 < z mod p2e \<or> (p = 2 \<and> z mod p2e = p2e div 2 \<and> random drawn)
               then p2e - z mod p2e else - (z mod p2e))
      in (z + q * v, v, if p = 2 \<and> z mod p2e = p2e div 2 then drawn + 1 else drawn))"
  unfolding makeDivisibleCoeff_def Let_def by auto

lemma makeDivisibleLoop_values:
  assumes "makeDivisibleLoop p p2e q random pwrfl drawn = Inr (pwrfl', vvec, drawn')"
  shows "\<forall>i < length pwrfl.
           vvec ! i = (if p2e div 2 < pwrfl ! i mod p2e
                          \<or> (p = 2 \<and> pwrfl ! i mod p2e = p2e div 2
                              \<and> random (drawn + length (filter (\<lambda>z. z mod p2e = p2e div 2)
                                                          (take i pwrfl))))
                       then p2e - pwrfl ! i mod p2e else - (pwrfl ! i mod p2e))"
  using assms
proof (induction pwrfl arbitrary: drawn pwrfl' vvec drawn')
  case Nil
  show ?case by simp
next
  case (Cons z zs)
  define v where "v = (if p2e div 2 < z mod p2e \<or> (p = 2 \<and> z mod p2e = p2e div 2 \<and> random drawn)
               then p2e - z mod p2e else - (z mod p2e))"
  define d1 where "d1 = (if p = 2 \<and> z mod p2e = p2e div 2 then drawn + 1 else drawn)"
  have st: "makeDivisibleCoeff p p2e q random z drawn = (z + q * v, v, d1)"
    by (simp add: makeDivisibleCoeff_value v_def d1_def Let_def)
  from Cons.prems obtain pw2 vv2 d2 where
    rest: "makeDivisibleLoop p p2e q random zs d1 = Inr (pw2, vv2, d2)" and vv: "vvec = v # vv2"
    by (auto simp: st split: if_splits sum.splits)
  note ih = Cons.IH [OF rest, rule_format]
  show ?case
  proof (intro allI impI)
    fix i assume i: "i < length (z # zs)"
    show "vvec ! i = (if p2e div 2 < (z # zs) ! i mod p2e
                          \<or> (p = 2 \<and> (z # zs) ! i mod p2e = p2e div 2
                              \<and> random (drawn + length (filter (\<lambda>z. z mod p2e = p2e div 2)
                                                          (take i (z # zs)))))
                       then p2e - (z # zs) ! i mod p2e else - ((z # zs) ! i mod p2e))"
    proof (cases i)
      case 0
      thus ?thesis by (simp add: vv v_def)
    next
      case (Suc j)
      hence j: "j < length zs" using i by simp
      have idx: "p = 2 \<Longrightarrow>
            d1 + length (filter (\<lambda>z. z mod p2e = p2e div 2) (take j zs))
            = drawn + length (filter (\<lambda>z. z mod p2e = p2e div 2) (take (Suc j) (z # zs)))"
        by (simp add: d1_def)
      show ?thesis
      proof (cases "p = 2")
        case True
        show ?thesis unfolding Suc vv nth_Cons_Suc ih [OF j] idx [OF True, symmetric] ..
      next
        case False
        thus ?thesis unfolding Suc vv nth_Cons_Suc ih [OF j] by simp
      qed
    qed
  qed
qed

lemma makeDivisibleLoop_no_random:
  "p \<noteq> 2 \<Longrightarrow> makeDivisibleLoop p p2e q random pwrfl drawn
               = makeDivisibleLoop p p2e q random' pwrfl drawn"
  by (induction pwrfl arbitrary: drawn) (simp_all add: makeDivisibleCoeff_def Let_def)

section \<open>Where a noise exception can come from\<close>



















text \<open>
  Claim C3. Let \<open>p2e = p^e'\<close> and \<open>q\<close> positive with \<open>q = 1\<close> modulo \<open>p2e\<close>. For
  \<open>p2e = 1\<close> the polynomial is unchanged. Otherwise \<^verbatim>\<open>newMakeDivisible\<close> does not fail, and
  with \<open>z_i\<close> the coefficients in the powerful basis and \<open>m_i\<close> the remainder of \<open>z_i\<close>
  modulo \<open>p2e\<close>, in \<open>[0, p2e - 1]\<close>, the new coefficients are \<open>z_i' = z_i + v_i * q\<close> where
  \<open>v_i = p2e - m_i\<close> when \<open>m_i > p2e / 2\<close>, \<open>v_i = - m_i\<close> when \<open>m_i < p2e / 2\<close>, and in
  the tie case \<open>m_i = p2e / 2\<close> for \<open>p = 2\<close> the value is \<open>p2e / 2\<close> or \<open>- p2e / 2\<close> as the
  random bit drawn for this coefficient says. So \<open>|v_i| \<le> p2e / 2\<close>, every \<open>z_i'\<close> is
  divisible by \<open>p2e\<close>, and \<open>z_i + v_i\<close> is a multiple of \<open>p2e\<close> nearest to \<open>z_i\<close>. Random
  bits are drawn for the coefficients whose remainder is exactly \<open>p2e / 2\<close>, one each
  in the order of the coefficients, and only when \<open>p = 2\<close>; for any other \<open>p\<close> the
  result does not depend on the random bits.
\<close>

theorem newMakeDivisible_rounds:
  assumes "p2e = getP env ^ e'" and "1 \<le> p2e" and "0 < q" and "q mod p2e = 1 mod p2e"
  shows "\<exists>pwrfl' vvec drawn'.
           newMakeDivisible env poly p2e q vpoly drawn =
             (if p2e = 1 then Inr (poly, [], drawn)
              else Inr (powerfulToZZX env pwrfl',
                        if HELIB_DEBUG env then powerfulToZZX env vvec else vpoly,
                        drawn'))
         \<and> (p2e \<noteq> 1 \<longrightarrow>
               length pwrfl' = length (ZZXtoPowerful env poly)
             \<and> length vvec = length (ZZXtoPowerful env poly)
             \<and> (\<forall>i < length (ZZXtoPowerful env poly).
                   vvec ! i
                     = (if p2e div 2 < ZZXtoPowerful env poly ! i mod p2e
                           \<or> (getP env = 2 \<and> ZZXtoPowerful env poly ! i mod p2e = p2e div 2
                               \<and> RandomBnd2 env
                                    (drawn + length (filter (\<lambda>z. z mod p2e = p2e div 2)
                                                       (take i (ZZXtoPowerful env poly)))))
                        then p2e - ZZXtoPowerful env poly ! i mod p2e
                        else - (ZZXtoPowerful env poly ! i mod p2e))
                 \<and> pwrfl' ! i = ZZXtoPowerful env poly ! i + vvec ! i * q
                 \<and> 2 * \<bar>vvec ! i\<bar> \<le> p2e
                 \<and> p2e dvd pwrfl' ! i
                 \<and> p2e dvd ZZXtoPowerful env poly ! i + vvec ! i)
             \<and> drawn' = drawn +
                  (if getP env = 2
                   then length (filter (\<lambda>z. z mod p2e = p2e div 2) (ZZXtoPowerful env poly))
                   else 0)
             \<and> (getP env \<noteq> 2 \<longrightarrow>
                  (\<forall>random. newMakeDivisible (env\<lparr>RandomBnd2 := random\<rparr>) poly p2e q vpoly drawn
                             = newMakeDivisible env poly p2e q vpoly drawn)))"
proof (cases "p2e = 1")
  case True
  then show ?thesis by (simp add: newMakeDivisible_def)
next
  case False
  with assms(2) have big: "1 < p2e" by simp
  then have q1: "q mod p2e = 1" using assms(4) by simp
  have ev: "getP env = 2 \<longrightarrow> even p2e"
  proof
    assume "getP env = 2"
    with assms(1) False have "p2e = 2 ^ e'" "e' \<noteq> 0" by (auto intro: ccontr)
    then show "even p2e" by simp
  qed
  obtain pwrfl' vvec where
    loop: "makeDivisibleLoop (getP env) p2e q (RandomBnd2 env) (ZZXtoPowerful env poly) drawn =
             Inr (pwrfl', vvec,
                  drawn + (if getP env = 2
                           then length (filter (\<lambda>z. z mod p2e = p2e div 2) (ZZXtoPowerful env poly))
                           else 0))"
    and len: "length pwrfl' = length (ZZXtoPowerful env poly)"
             "length vvec = length (ZZXtoPowerful env poly)"
    and each: "\<forall>i < length (ZZXtoPowerful env poly).
                   pwrfl' ! i = ZZXtoPowerful env poly ! i + vvec ! i * q
                 \<and> 2 * \<bar>vvec ! i\<bar> \<le> p2e
                 \<and> p2e dvd pwrfl' ! i
                 \<and> p2e dvd ZZXtoPowerful env poly ! i + vvec ! i"
    using makeDivisibleLoop_correct [OF big q1 ev] by blast
  note vals = makeDivisibleLoop_values [OF loop]
  have res: "newMakeDivisible env poly p2e q vpoly drawn =
               Inr (powerfulToZZX env pwrfl',
                    if HELIB_DEBUG env then powerfulToZZX env vvec else vpoly,
                    drawn + (if getP env = 2
                           then length (filter (\<lambda>z. z mod p2e = p2e div 2) (ZZXtoPowerful env poly))
                           else 0))"
    using False big q1 assms(3) loop by (simp add: newMakeDivisible_def)
  have indep: "getP env \<noteq> 2 \<longrightarrow>
                  (\<forall>random. newMakeDivisible (env\<lparr>RandomBnd2 := random\<rparr>) poly p2e q vpoly drawn
                             = newMakeDivisible env poly p2e q vpoly drawn)"
  proof (intro impI allI)
    fix random assume "getP env \<noteq> 2"
    from makeDivisibleLoop_no_random [OF this, of p2e q random "ZZXtoPowerful env poly" drawn
                                        "RandomBnd2 env"] loop
    show "newMakeDivisible (env\<lparr>RandomBnd2 := random\<rparr>) poly p2e q vpoly drawn
            = newMakeDivisible env poly p2e q vpoly drawn"
      by (simp add: newMakeDivisible_def)
  qed
  have all: "\<forall>i < length (ZZXtoPowerful env poly).
                   vvec ! i
                     = (if p2e div 2 < ZZXtoPowerful env poly ! i mod p2e
                           \<or> (getP env = 2 \<and> ZZXtoPowerful env poly ! i mod p2e = p2e div 2
                               \<and> RandomBnd2 env
                                    (drawn + length (filter (\<lambda>z. z mod p2e = p2e div 2)
                                                       (take i (ZZXtoPowerful env poly)))))
                        then p2e - ZZXtoPowerful env poly ! i mod p2e
                        else - (ZZXtoPowerful env poly ! i mod p2e))
                 \<and> pwrfl' ! i = ZZXtoPowerful env poly ! i + vvec ! i * q
                 \<and> 2 * \<bar>vvec ! i\<bar> \<le> p2e
                 \<and> p2e dvd pwrfl' ! i
                 \<and> p2e dvd ZZXtoPowerful env poly ! i + vvec ! i"
    using vals each by blast
  show ?thesis
    apply (rule exI [of _ pwrfl'], rule exI [of _ vvec])
    apply (rule exI [of _ "drawn + (if getP env = 2
               then length (filter (\<lambda>z. z mod p2e = p2e div 2) (ZZXtoPowerful env poly)) else 0)"])
    using res len all indep False by (simp only: if_False simp_thms)
qed

theorem newMakeDivisible_rounds_witness:
  "newMakeDivisible (toy_env 2 False (\<lambda>c q. ([], 0)) (\<lambda>n. n = 0)) [5, 2, - 3, 8, 6] 4 17 [] 0
     = Inr ([- 12, 36, - 20, 8, - 28], [], 2)"
  using newMakeDivisible_rounds
          [of 4 "toy_env 2 False (\<lambda>c q. ([], 0)) (\<lambda>n. n = 0)" 2 17 "[5, 2, - 3, 8, 6]" "[]" 0]
  by (simp add: toy_env_def newMakeDivisible_def makeDivisibleCoeff_def)

section \<open>Degenerate ciphertexts\<close>

text \<open>
  Claim C10, as the code has it. \<^verbatim>\<open>reCrypt\<close> returns an empty ciphertext as it is, and
  for a ciphertext of exactly one part whose handle is "one" it returns the dummy
  encryption of the part's polynomial with every coefficient reduced modulo the
  plaintext space. \<^verbatim>\<open>thinReCrypt\<close> makes the two checks at the start of each pass of
  its loop over \<open>nb_iterations\<close>, so it does the same when the loop is entered, that
  is for \<open>nb_iterations > 0\<close>. In these cases nothing is printed and the result involves
  no other operation of the environment: no key switch, mod-switch, linear map or digit
  extraction has run.
\<close>

theorem reCrypt_short_circuits:
  "(isEmpty ctxt \<longrightarrow>
      reCrypt env ctxt our_version lazy drawn = ([], Inr ctxt)
    \<and> (0 < nb_iterations \<longrightarrow>
         thinReCrypt env ctxt our_version lazy nb_iterations drawn = ([], Inr ctxt)))
   \<and> (length (parts ctxt) = 1 \<and> isOne (skHandle (parts ctxt ! 0)) \<longrightarrow>
      reCrypt env ctxt our_version lazy drawn
        = ([], Inr (DummyEncrypt env
                      (normalize_ZZX (map (\<lambda>c. c mod ptxtSpace ctxt) (to_ZZX env (parts ctxt ! 0))))
                      ctxt))
    \<and> (0 < nb_iterations \<longrightarrow>
         thinReCrypt env ctxt our_version lazy nb_iterations drawn
           = ([], Inr (DummyEncrypt env
                         (normalize_ZZX (map (\<lambda>c. c mod ptxtSpace ctxt) (to_ZZX env (parts ctxt ! 0))))
                         ctxt))))"
proof -
  have loop: "0 < nb_iterations \<Longrightarrow> \<exists>n. nat nb_iterations = Suc n"
    by (cases "nat nb_iterations") auto
  have thin_empty: "isEmpty ctxt \<Longrightarrow> 0 < nb_iterations \<Longrightarrow>
      thinReCrypt env ctxt our_version lazy nb_iterations drawn = ([], Inr ctxt)"
    using loop by (auto simp: thinReCrypt_def thinReCryptPass_def)
  have thin_dummy: "length (parts ctxt) = 1 \<and> isOne (skHandle (parts ctxt ! 0)) \<Longrightarrow> 0 < nb_iterations \<Longrightarrow>
      thinReCrypt env ctxt our_version lazy nb_iterations drawn = ([], Inr (reduceDummy env ctxt))"
    using loop by (auto simp: thinReCrypt_def thinReCryptPass_def isEmpty_def)
  have thick_empty: "isEmpty ctxt \<Longrightarrow> reCrypt env ctxt our_version lazy drawn = ([], Inr ctxt)"
    by (simp add: reCrypt_def reCryptPass_def)
  have thick_dummy: "length (parts ctxt) = 1 \<and> isOne (skHandle (parts ctxt ! 0)) \<Longrightarrow>
      reCrypt env ctxt our_version lazy drawn = ([], Inr (reduceDummy env ctxt))"
    by (simp add: reCrypt_def reCryptPass_def isEmpty_def)
  show ?thesis
    using thin_empty thin_dummy thick_empty thick_dummy
    by (simp add: reduceDummy_def Let_def)
qed

theorem reCrypt_short_circuits_witness:
  "thinReCrypt (toy_env 2 False (\<lambda>c q. ([], 0)) (\<lambda>n. True))
     \<lparr>parts = [\<lparr>dcrt = [3, 4, 5, - 6, 2],
                skHandle = \<lparr>powerOfS = 0, powerOfX = 1, secretKeyID = 0\<rparr>\<rparr>],
      primeSet = {0, 1, 2}, ptxtSpace = 2, noiseBound = 1,
      intFactor = 1, ratFactor = 1, ptxtMag = 1\<rparr>
     True False 2 0
   = ([], Inr \<lparr>parts = [\<lparr>dcrt = [1, 0, 1],
                skHandle = \<lparr>powerOfS = 0, powerOfX = 1, secretKeyID = 0\<rparr>\<rparr>],
               primeSet = {0, 1, 2}, ptxtSpace = 2, noiseBound = 1,
               intFactor = 1, ratFactor = 1, ptxtMag = 1\<rparr>)"
  using reCrypt_short_circuits
          [of "\<lparr>parts = [\<lparr>dcrt = [3, 4, 5, - 6, 2],
                skHandle = \<lparr>powerOfS = 0, powerOfX = 1, secretKeyID = 0\<rparr>\<rparr>],
                primeSet = {0, 1, 2}, ptxtSpace = 2, noiseBound = 1,
                intFactor = 1, ratFactor = 1, ptxtMag = 1\<rparr>"
              "toy_env 2 False (\<lambda>c q. ([], 0)) (\<lambda>n. True)" True False 0 2]
  by (simp add: isOne_def toy_env_def normalize_ZZX_def)

text \<open>
  Without a pass of the loop \<^verbatim>\<open>thinReCrypt\<close> does not short-circuit: with
  \<open>nb_iterations = -1\<close> a dummy encryption comes back as it is, not reduced, after the
  statistics are printed, and with \<open>nb_iterations = 0\<close> the averages of the statistics
  divide by zero, also for the empty ciphertext.
\<close>

theorem thinReCrypt_no_pass_counterexample:
  "thinReCrypt (toy_env 2 False (\<lambda>c q. ([], 0)) (\<lambda>n. True))
     \<lparr>parts = [\<lparr>dcrt = [3, 4, 5, - 6, 2],
                skHandle = \<lparr>powerOfS = 0, powerOfX = 1, secretKeyID = 0\<rparr>\<rparr>],
      primeSet = {0, 1, 2}, ptxtSpace = 2, noiseBound = 1,
      intFactor = 1, ratFactor = 1, ptxtMag = 1\<rparr>
     True False (- 1) 0
   = ([Statistics],
      Inr \<lparr>parts = [\<lparr>dcrt = [3, 4, 5, - 6, 2],
                skHandle = \<lparr>powerOfS = 0, powerOfX = 1, secretKeyID = 0\<rparr>\<rparr>],
           primeSet = {0, 1, 2}, ptxtSpace = 2, noiseBound = 1,
           intFactor = 1, ratFactor = 1, ptxtMag = 1\<rparr>)
   \<and> thinReCrypt (toy_env 2 False (\<lambda>c q. ([], 0)) (\<lambda>n. True))
     \<lparr>parts = [], primeSet = {0, 1, 2}, ptxtSpace = 2, noiseBound = 1,
      intFactor = 1, ratFactor = 1, ptxtMag = 1\<rparr>
     True False 0 0
   = ([], Inl (Undefined ''division by zero''))"
  by (simp add: thinReCrypt_def)

section \<open>The noise check after the raw mod-switch\<close>




section \<open>Reading the lifting-polynomial files\<close>

text \<open>
  The tokens that the loop of \<^verbatim>\<open>parsePolynomial\<close> reads are the pieces between white
  space, and storing them one after the other gives the normalised list of their
  values.
\<close>

lemma split_ws_nonspace:
  "\<forall>c \<in> set w. \<not> isspace c \<Longrightarrow> split_ws (w @ rest) piece = split_ws rest (piece @ w)"
  by (induction w arbitrary: piece) auto

lemma split_ws_space:
  "\<forall>c \<in> set w. isspace c \<Longrightarrow> split_ws (w @ rest) [] = split_ws rest []"
  by (induction w) auto

lemma split_ws_piece:
  "rest = [] \<or> isspace (hd rest) \<Longrightarrow> piece \<noteq> [] \<Longrightarrow> split_ws rest piece = piece # split_ws rest []"
  by (cases rest) auto

lemma split_ws_read_token:
  assumes "read_token s = (tmp, rest)"
  shows "split_ws s [] = (if tmp = [] then [] else tmp # split_ws rest [])"
proof -
  define ws where "ws = takeWhile isspace s"
  define s' where "s' = dropWhile isspace s"
  have s: "s = ws @ tmp @ rest" and tmp: "tmp = takeWhile (\<lambda>c. \<not> isspace c) s'"
    and rest: "rest = dropWhile (\<lambda>c. \<not> isspace c) s'"
    using assms by (auto simp: read_token_def Let_def ws_def s'_def)
  have ws: "\<forall>c \<in> set ws. isspace c"
    unfolding ws_def by (auto dest: set_takeWhileD)
  have tm: "\<forall>c \<in> set tmp. \<not> isspace c"
    unfolding tmp by (auto dest: set_takeWhileD)
  have rs: "rest = [] \<or> isspace (hd rest)"
    unfolding rest by (metis hd_dropWhile)
  have "split_ws s [] = split_ws rest tmp"
    unfolding s using ws tm by (simp add: split_ws_space split_ws_nonspace)
  also have "\<dots> = (if tmp = [] then [] else tmp # split_ws rest [])"
  proof (cases "tmp = []")
    case True
    then have "s' = rest" using tmp rest by (metis append_Nil takeWhile_dropWhile_id)
    moreover from True have "s' = [] \<or> isspace (hd s')"
      unfolding tmp by (cases s') (auto split: if_splits)
    moreover have "s' = [] \<or> \<not> isspace (hd s')"
      unfolding s'_def by (metis hd_dropWhile)
    ultimately show ?thesis using True by auto
  next
    case False
    then show ?thesis using split_ws_piece [OF rs] by simp
  qed
  finally show ?thesis .
qed


lemma normalize_ZZX_pad:
  "normalize_ZZX cs @ replicate (length cs - length (normalize_ZZX cs)) 0 = cs"
proof -
  have "rev cs = takeWhile (\<lambda>c. c = 0) (rev cs) @ dropWhile (\<lambda>c. c = 0) (rev cs)"
    by simp
  moreover have "takeWhile (\<lambda>c. c = 0) (rev cs)
                   = replicate (length (takeWhile (\<lambda>c. c = 0) (rev cs))) (0::int)"
    by (rule replicate_length_same [symmetric]) (auto dest: set_takeWhileD)
  moreover have "length (takeWhile (\<lambda>c. c = 0) (rev cs))
                   = length cs - length (normalize_ZZX cs)"
    by (metis (no_types, lifting) add_diff_cancel_right' calculation(1) length_append length_rev
          normalize_ZZX_def)
  ultimately have "rev cs = replicate (length cs - length (normalize_ZZX cs)) 0
                     @ dropWhile (\<lambda>c. c = 0) (rev cs)"
    by metis
  then have "rev (rev cs) = rev (replicate (length cs - length (normalize_ZZX cs)) 0
                     @ dropWhile (\<lambda>c. c = 0) (rev cs))"
    by simp
  then show ?thesis
    by (simp add: normalize_ZZX_def)
qed

lemma length_normalize_ZZX: "length (normalize_ZZX cs) \<le> length cs"
  by (simp add: normalize_ZZX_def length_dropWhile_le) (metis length_dropWhile_le length_rev)

lemma SetCoeff_normalized:
  "SetCoeff (normalize_ZZX cs) (length cs) a = normalize_ZZX (cs @ [a])"
proof -
  have "Suc (length cs) - length (normalize_ZZX cs)
          = Suc (length cs - length (normalize_ZZX cs))"
    using length_normalize_ZZX [of cs] by simp
  then have "normalize_ZZX cs @ replicate (Suc (length cs) - length (normalize_ZZX cs)) 0
          = (normalize_ZZX cs @ replicate (length cs - length (normalize_ZZX cs)) 0) @ [0]"
    by (simp add: replicate_append_same)
  then have "normalize_ZZX cs @ replicate (Suc (length cs) - length (normalize_ZZX cs)) 0
          = cs @ [0]"
    by (simp only: normalize_ZZX_pad)
  then show ?thesis
    by (simp add: SetCoeff_def)
qed

lemma parseCoefficients_tokens:
  assumes "\<forall>t \<in> set (split_ws indata []). to_ZZ t \<noteq> None"
  shows "parseCoefficients to_ZZ indata (normalize_ZZX cs) (length cs)
           = Inr (normalize_ZZX (cs @ map (\<lambda>t. the (to_ZZ t)) (split_ws indata [])))"
  using assms
proof (induction "length indata" arbitrary: indata cs rule: less_induct)
  case less
  obtain tmp rest where rt: "read_token indata = (tmp, rest)"
    by (cases "read_token indata")
  note sp = split_ws_read_token [OF rt]
  show ?case
  proof (cases "tmp = []")
    case True
    then show ?thesis using rt sp by (subst parseCoefficients.simps) simp
  next
    case False
    with less.prems sp obtain a where a: "to_ZZ tmp = Some a" by auto
    have shorter: "length rest < length indata"
      using read_token_shorter [of tmp rest indata] rt False by simp
    have "\<forall>t \<in> set (split_ws rest []). to_ZZ t \<noteq> None"
      using less.prems sp False by simp
    from less.hyps [OF shorter this, of "cs @ [a]"]
    have "parseCoefficients to_ZZ rest (normalize_ZZX (cs @ [a])) (length cs + 1)
            = Inr (normalize_ZZX (cs @ a # map (\<lambda>t. the (to_ZZ t)) (split_ws rest [])))"
      by simp
    then show ?thesis
      using rt sp False a
      by (subst parseCoefficients.simps) (simp add: SetCoeff_normalized)
  qed
qed


lemma loadPolynomials_until_missing:
  assumes "e \<le> e0" and "fs (polynomialFileName p e_inner e0) = None"
    and "\<forall>e'. e \<le> e' \<and> e' < e0 \<longrightarrow>
           fs (polynomialFileName p e_inner e') \<noteq> None
         \<and> parsePolynomial fs to_ZZ (polynomialFileName p e_inner e') = Inr (polys e')"
  shows "loadPolynomials fs to_ZZ p e_inner e loaded = Some (Inr (loaded @ map polys [e .. e0 - 1]))"
  using assms
proof (induction "nat (e0 - e)" arbitrary: e loaded)
  case 0
  then have "e = e0" by simp
  then show ?case using "0.prems"(2) by (subst loadPolynomials.simps) simp
next
  case (Suc n)
  then have lt: "e < e0" by linarith
  with Suc.prems(3) have here: "fs (polynomialFileName p e_inner e) \<noteq> None"
    "parsePolynomial fs to_ZZ (polynomialFileName p e_inner e) = Inr (polys e)"
    by auto
  have n: "n = nat (e0 - (e + 1))" using Suc.hyps(2) by linarith
  have "loadPolynomials fs to_ZZ p e_inner (e + 1) (loaded @ [polys e])
          = Some (Inr ((loaded @ [polys e]) @ map polys [e + 1 .. e0 - 1]))"
    using Suc.hyps(1) [OF n] lt Suc.prems(2,3) by simp
  moreover have "[e .. e0 - 1] = e # [e + 1 .. e0 - 1]"
    using lt by (simp add: upto_rec1)
  ultimately show ?case
    using here by (subst loadPolynomials.simps) simp
qed

lemma loadInner_table:
  assumes "\<forall>e_inner \<in> set e_inner_list.
             loadPolynomials fs to_ZZ p e_inner (e_inner + 1) [] = Some (Inr (table e_inner))"
  shows "loadInner fs to_ZZ p e_inner_list = Some (Inr (map table e_inner_list))"
  using assms by (induction e_inner_list) simp_all

lemma init_polynomials_table:
  assumes "\<forall>p \<in> set primes_list. \<forall>e_inner \<in> set e_inner_list.
             loadPolynomials fs to_ZZ p e_inner (e_inner + 1) [] = Some (Inr (table p e_inner))"
  shows "init_polynomials fs to_ZZ primes_list e_inner_list
           = Some (Inr (map (\<lambda>p. map (table p) e_inner_list) primes_list))"
  using assms
proof (induction primes_list)
  case Nil
  show ?case by simp
next
  case (Cons p primes_list)
  then have "loadInner fs to_ZZ p e_inner_list = Some (Inr (map (table p) e_inner_list))"
    by (intro loadInner_table) simp
  moreover have "init_polynomials fs to_ZZ primes_list e_inner_list
           = Some (Inr (map (\<lambda>p. map (table p) e_inner_list) primes_list))"
    using Cons by simp
  ultimately show ?case by simp
qed

text \<open>
  Claim C9, as the code has it. A file that cannot be opened is an error of
  \<^verbatim>\<open>parsePolynomial\<close>. An empty file is not: it is read as the zero polynomial. A
  file whose white-space separated pieces are all integers is read as the polynomial
  with these coefficients in ascending degree order. \<^verbatim>\<open>init_polynomials\<close> loads, for
  every prime and every \<open>e_inner\<close> of its tables, the files
  \<^verbatim>\<open>polynomials/poly{p}_{e_inner}_{e}.txt\<close> for \<open>e = e_inner + 1, e_inner + 2, ...\<close> up to
  the first \<open>e\<close> whose file is missing, and it returns when every pair has such an
  \<open>e\<close>.
\<close>

theorem polynomial_files:
  "(fs fileName = None \<longrightarrow>
      parsePolynomial fs to_ZZ fileName = Inl (LogicError ''Polynomial file does not exist.''))
   \<and> (fs fileName = Some [] \<longrightarrow> parsePolynomial fs to_ZZ fileName = Inr [])
   \<and> (\<forall>indata. fs fileName = Some indata \<and> (\<forall>t \<in> set (split_ws indata []). to_ZZ t \<noteq> None) \<longrightarrow>
         parsePolynomial fs to_ZZ fileName
           = Inr (normalize_ZZX (map (\<lambda>t. the (to_ZZ t)) (split_ws indata []))))
   \<and> (\<forall>table.
         (\<forall>p \<in> set primes_list. \<forall>e_inner \<in> set e_inner_list.
            \<exists>e0 \<ge> e_inner + 1.
              fs (polynomialFileName p e_inner e0) = None
            \<and> (\<forall>e. e_inner + 1 \<le> e \<and> e < e0 \<longrightarrow>
                  fs (polynomialFileName p e_inner e) \<noteq> None
                \<and> parsePolynomial fs to_ZZ (polynomialFileName p e_inner e) = Inr (table p e_inner e))
            \<and> loaded p e_inner = map (table p e_inner) [e_inner + 1 .. e0 - 1]) \<longrightarrow>
         init_polynomials fs to_ZZ primes_list e_inner_list
           = Some (Inr (map (\<lambda>p. map (loaded p) e_inner_list) primes_list)))"
proof (intro conjI allI impI)
  assume "fs fileName = None"
  then show "parsePolynomial fs to_ZZ fileName = Inl (LogicError ''Polynomial file does not exist.'')"
    by (simp add: parsePolynomial_def)
next
  assume "fs fileName = Some []"
  then show "parsePolynomial fs to_ZZ fileName = Inr []"
    by (simp add: parsePolynomial_def read_token_def)
next
  fix indata
  assume "fs fileName = Some indata \<and> (\<forall>t \<in> set (split_ws indata []). to_ZZ t \<noteq> None)"
  then show "parsePolynomial fs to_ZZ fileName
           = Inr (normalize_ZZX (map (\<lambda>t. the (to_ZZ t)) (split_ws indata [])))"
    using parseCoefficients_tokens [of indata to_ZZ "[]"]
    by (simp add: parsePolynomial_def normalize_ZZX_def)
next
  fix table
  assume a: "\<forall>p \<in> set primes_list. \<forall>e_inner \<in> set e_inner_list.
            \<exists>e0 \<ge> e_inner + 1.
              fs (polynomialFileName p e_inner e0) = None
            \<and> (\<forall>e. e_inner + 1 \<le> e \<and> e < e0 \<longrightarrow>
                  fs (polynomialFileName p e_inner e) \<noteq> None
                \<and> parsePolynomial fs to_ZZ (polynomialFileName p e_inner e) = Inr (table p e_inner e))
            \<and> loaded p e_inner = map (table p e_inner) [e_inner + 1 .. e0 - 1]"
  have "\<forall>p \<in> set primes_list. \<forall>e_inner \<in> set e_inner_list.
          loadPolynomials fs to_ZZ p e_inner (e_inner + 1) [] = Some (Inr (loaded p e_inner))"
  proof (intro ballI)
    fix p e_inner assume "p \<in> set primes_list" "e_inner \<in> set e_inner_list"
    with a obtain e0 where e0: "e_inner + 1 \<le> e0" "fs (polynomialFileName p e_inner e0) = None"
      "\<forall>e. e_inner + 1 \<le> e \<and> e < e0 \<longrightarrow>
                  fs (polynomialFileName p e_inner e) \<noteq> None
                \<and> parsePolynomial fs to_ZZ (polynomialFileName p e_inner e) = Inr (table p e_inner e)"
      "loaded p e_inner = map (table p e_inner) [e_inner + 1 .. e0 - 1]"
      by blast
    from loadPolynomials_until_missing [OF e0(1,2,3), of "[]"] e0(4)
    show "loadPolynomials fs to_ZZ p e_inner (e_inner + 1) [] = Some (Inr (loaded p e_inner))"
      by simp
  qed
  then show "init_polynomials fs to_ZZ primes_list e_inner_list
           = Some (Inr (map (\<lambda>p. map (loaded p) e_inner_list) primes_list))"
    by (rule init_polynomials_table)
qed

theorem polynomial_files_witness:
  "parsePolynomial (\<lambda>n. if n = ''polynomials/poly2_1_2.txt'' then Some ''0 112 -3 0'' else None)
     decimal (polynomialFileName 2 1 2) = Inr [0, 112, - 3]"
proof -
  have name: "polynomialFileName 2 1 2 = ''polynomials/poly2_1_2.txt''"
    by code_simp
  have toks: "split_ws ''0 112 -3 0'' [] = [''0'', ''112'', ''-3'', ''0'']"
    by code_simp
  have vals: "decimal ''0'' = Some 0" "decimal ''112'' = Some 112" "decimal ''-3'' = Some (- 3)"
    by code_simp+
  show ?thesis
    using polynomial_files
            [of "\<lambda>n. if n = ''polynomials/poly2_1_2.txt'' then Some ''0 112 -3 0'' else None"
                "''polynomials/poly2_1_2.txt''" decimal "[]" "[]" "\<lambda>p e. []"]
    by (simp add: name toks vals normalize_ZZX_def del: split_ws.simps)
qed

text \<open>
  The claim as written says that an empty file is an error; the code returns the zero
  polynomial for it.
\<close>

theorem empty_file_counterexample:
  "parsePolynomial (\<lambda>n. if n = ''polynomials/poly2_1_2.txt'' then Some [] else None) decimal
     ''polynomials/poly2_1_2.txt'' = Inr []"
  by (simp add: parsePolynomial_def read_token_def)

section \<open>Rounding to \<^verbatim>\<open>double\<close>\<close>

text \<open>
  \<open>ilog2\<close> is the binary exponent of a positive number, and \<open>double x\<close> is a number with
  a significand of at most 53 bits at that exponent and at most half a unit in the last
  place away from \<open>x\<close>.
\<close>

lemma pow2_powr: "pow2 e = 2 powr real_of_int e"
proof (cases "0 \<le> e")
  case True
  have "2 powr real (nat e) = (2::real) ^ nat e" by (rule powr_realpow) simp
  thus ?thesis using True by (simp add: pow2_def)
next
  case False
  have "2 powr real (nat (- e)) = (2::real) ^ nat (- e)" by (rule powr_realpow) simp
  moreover have "2 powr real_of_int e = 1 / 2 powr real (nat (- e))"
    using False by (simp add: powr_minus_divide [symmetric])
  ultimately show ?thesis using False by (simp add: pow2_def)
qed

lemma pow2_pos: "0 < pow2 e"
  by (simp add: pow2_powr)

lemma ilog2_bounds:
  assumes "0 < x"
  shows "pow2 (ilog2 x) \<le> x" and "x < pow2 (ilog2 x + 1)"
proof -
  have "pow2 (ilog2 x) \<le> x \<and> x < pow2 (ilog2 x + 1)"
  proof (cases "1 \<le> x")
    case True
    define n where "n = \<lfloor>x\<rfloor>"
    have n: "1 \<le> n" "real_of_int n \<le> x" "x < real_of_int n + 1"
      using True by (simp_all add: n_def le_floor_iff)
    hence "0 < n" by simp
    from bitlen_bounds [OF this]
    have b: "2 ^ nat (bitlen n - 1) \<le> n" "n < 2 ^ nat (bitlen n)" by blast+
    have b1: "1 \<le> bitlen n" using n(1) by (simp add: bitlen_alt_def)
    have "real_of_int (2 ^ nat (bitlen n - 1)) \<le> real_of_int n"
      using b(1) by (simp only: of_int_le_iff)
    hence "(2::real) ^ nat (bitlen n - 1) \<le> real_of_int n"
      by (simp only: of_int_power of_int_numeral)
    hence lo: "2 ^ nat (bitlen n - 1) \<le> x" using n(2) by linarith
    have "n + 1 \<le> 2 ^ nat (bitlen n)" using b(2) by simp
    hence "real_of_int (n + 1) \<le> real_of_int (2 ^ nat (bitlen n))" by (simp only: of_int_le_iff)
    hence "real_of_int n + 1 \<le> (2::real) ^ nat (bitlen n)"
      by (simp only: of_int_power of_int_numeral of_int_add of_int_1)
    hence hi: "x < 2 ^ nat (bitlen n)" using n(3) by linarith
    have e: "ilog2 x = bitlen n - 1" using True by (simp add: ilog2_def n_def)
    show ?thesis unfolding e using lo hi b1 by (simp add: pow2_def)
  next
    case False
    define y where "y = 1 / x"
    define m where "m = \<lceil>y\<rceil> - 1"
    have y1: "1 < y" using False assms by (simp add: y_def)
    have m: "1 \<le> m" "real_of_int m < y" "y \<le> real_of_int m + 1"
    proof -
      have "2 \<le> \<lceil>y\<rceil>" using y1 by (simp add: le_ceiling_iff)
      thus "1 \<le> m" by (simp add: m_def)
      show "real_of_int m < y" unfolding m_def by linarith
      show "y \<le> real_of_int m + 1" unfolding m_def by simp
    qed
    hence "0 < m" by simp
    from bitlen_bounds [OF this]
    have b: "2 ^ nat (bitlen m - 1) \<le> m" "m < 2 ^ nat (bitlen m)" by blast+
    have b1: "1 \<le> bitlen m" using m(1) by (simp add: bitlen_alt_def)
    have "real_of_int (2 ^ nat (bitlen m - 1)) \<le> real_of_int m"
      using b(1) by (simp only: of_int_le_iff)
    hence "(2::real) ^ nat (bitlen m - 1) \<le> real_of_int m"
      by (simp only: of_int_power of_int_numeral)
    hence lo: "2 ^ nat (bitlen m - 1) < y" using m(2) by linarith
    have "m + 1 \<le> 2 ^ nat (bitlen m)" using b(2) by simp
    hence "real_of_int (m + 1) \<le> real_of_int (2 ^ nat (bitlen m))" by (simp only: of_int_le_iff)
    hence "real_of_int m + 1 \<le> (2::real) ^ nat (bitlen m)"
      by (simp only: of_int_power of_int_numeral of_int_add of_int_1)
    hence hi: "y \<le> 2 ^ nat (bitlen m)" using m(3) by linarith
    have e: "ilog2 x = - bitlen m" using False by (simp add: ilog2_def m_def y_def)
    have x: "x = 1 / y" using assms by (simp add: y_def)
    have p1: "pow2 (- bitlen m) = 1 / 2 ^ nat (bitlen m)"
      using b1 by (simp add: pow2_def)
    have p2: "pow2 (- bitlen m + 1) = 1 / 2 ^ nat (bitlen m - 1)"
    proof (cases "bitlen m = 1")
      case True thus ?thesis by (simp add: pow2_def)
    next
      case False
      hence "\<not> 0 \<le> - bitlen m + 1" using b1 by simp
      moreover have "nat (- (- bitlen m + 1)) = nat (bitlen m - 1)" by simp
      ultimately show ?thesis by (simp only: pow2_def if_False)
    qed
    have "1 / 2 ^ nat (bitlen m) \<le> 1 / y"
      using hi y1 by (intro divide_left_mono) simp_all
    hence A: "1 / 2 ^ nat (bitlen m) \<le> x" by (simp only: x)
    have "1 / y < 1 / 2 ^ nat (bitlen m - 1)"
      using lo y1 by (intro divide_strict_left_mono) simp_all
    hence B: "x < 1 / 2 ^ nat (bitlen m - 1)" by (simp only: x)
    show ?thesis unfolding e p1 p2 using A B by blast
  qed
  thus "pow2 (ilog2 x) \<le> x" and "x < pow2 (ilog2 x + 1)" by blast+
qed

lemma round_even_nearest: "\<bar>real_of_int (round_even x) - x\<bar> \<le> 1 / 2"
proof -
  have "real_of_int \<lfloor>x\<rfloor> \<le> x" "x < real_of_int \<lfloor>x\<rfloor> + 1" by linarith+
  thus ?thesis by (auto simp: round_even_def Let_def)
qed

lemma double_nearest:
  assumes "x \<noteq> 0"
  shows "\<bar>double x - x\<bar> \<le> pow2 (ilog2 \<bar>x\<bar> - 52) / 2"
proof -
  define u where "u = pow2 (ilog2 \<bar>x\<bar> - 52)"
  have u: "0 < u" unfolding u_def by (rule pow2_pos)
  have "double x - x = (real_of_int (round_even (x / u)) - x / u) * u"
    using assms u by (simp add: double_def u_def Let_def algebra_simps)
  hence "\<bar>double x - x\<bar> = \<bar>real_of_int (round_even (x / u)) - x / u\<bar> * u"
    using u by (simp add: abs_mult)
  also have "\<dots> \<le> 1 / 2 * u"
    using round_even_nearest [of "x / u"] u by (intro mult_right_mono) simp_all
  finally show ?thesis by (simp add: u_def)
qed


lemma double_significand:
  assumes "x \<noteq> 0"
  shows "\<exists>n. double x = real_of_int n * pow2 (ilog2 \<bar>x\<bar> - 52) \<and> \<bar>n\<bar> \<le> 2 ^ 53"
proof -
  define e where "e = ilog2 \<bar>x\<bar>"
  define u where "u = pow2 (e - 52)"
  define n where "n = round_even (x / u)"
  have u: "0 < u" unfolding u_def by (rule pow2_pos)
  have "real_of_int (e + 1) = 53 + real_of_int (e - 52)" by simp
  hence "pow2 (e + 1) = 2 powr (53 + real_of_int (e - 52))" by (simp only: pow2_powr)
  also have "\<dots> = 2 powr 53 * 2 powr real_of_int (e - 52)" by (rule powr_add)
  also have "\<dots> = 2 ^ 53 * u" by (simp add: u_def pow2_powr)
  finally have top: "pow2 (e + 1) = 2 ^ 53 * u" .
  have "\<bar>x\<bar> < pow2 (e + 1)" unfolding e_def using assms by (intro ilog2_bounds(2)) simp
  hence "\<bar>x\<bar> / u < 2 ^ 53" using u by (simp add: top pos_divide_less_eq)
  hence z: "\<bar>x / u\<bar> < 2 ^ 53" using u by simp
  have "\<bar>real_of_int n - x / u\<bar> \<le> 1 / 2" unfolding n_def by (rule round_even_nearest)
  hence "\<bar>real_of_int n\<bar> < 2 ^ 53 + 1" using z by linarith
  hence "real_of_int \<bar>n\<bar> < real_of_int (2 ^ 53 + 1)" by simp
  hence "\<bar>n\<bar> < 2 ^ 53 + 1" by (simp only: of_int_less_iff)
  hence "\<bar>n\<bar> \<le> 2 ^ 53" by simp
  moreover have "double x = real_of_int n * pow2 (ilog2 \<bar>x\<bar> - 52)"
    using assms by (simp add: double_def Let_def n_def u_def e_def)
  ultimately show ?thesis by blast
qed

section \<open>The choice of \<open>e\<close> and \<open>e'\<close>\<close>

text \<open>
  The first loop of \<^verbatim>\<open>setAE\<close> ends for every \<open>p \<ge> 2\<close>, with the largest exponent whose
  power is at most \<open>2^30 - 2\<close>.
\<close>

lemma int_le_div_iff:
  fixes a b c :: int
  assumes "0 < c"
  shows "a \<le> b div c \<longleftrightarrow> a * c \<le> b"
proof
  assume "a \<le> b div c"
  hence "a * c \<le> (b div c) * c" using assms by (simp add: mult_right_mono)
  moreover have "b = (b div c) * c + b mod c" by simp
  moreover have "0 \<le> b mod c" using assms by simp
  ultimately show "a * c \<le> b" by linarith
next
  assume "a * c \<le> b"
  hence "(a * c) div c \<le> b div c" using assms by (rule zdiv_mono1)
  thus "a \<le> b div c" using assms by simp
qed

lemma e_bnd_loop_returns:
  assumes "2 \<le> p" "1 \<le> q"
  shows "\<exists>n. e_bnd_loop p e q = Some (e + int n, q * p ^ n)
             \<and> (q \<le> 2 ^ 30 - 2 \<longrightarrow> q * p ^ n \<le> 2 ^ 30 - 2) \<and> 2 ^ 30 - 2 < q * p ^ n * p"
  using assms(2)
proof (induction "nat (2 ^ 30 - q)" arbitrary: e q rule: less_induct)
  case less
  have p: "0 < p" using assms(1) by simp
  show ?case
  proof (cases "q * p \<le> 2 ^ 30 - 2")
    case True
    have "q * 2 \<le> q * p" using assms(1) less.prems by (simp add: mult_left_mono)
    hence lt: "q < q * p" using less.prems by linarith
    hence "nat (2 ^ 30 - q * p) < nat (2 ^ 30 - q)" using True by linarith
    moreover have "1 \<le> q * p" using lt less.prems by linarith
    ultimately obtain n where n: "e_bnd_loop p (e + 1) (q * p) = Some (e + 1 + int n, q * p * p ^ n)"
      "q * p \<le> 2 ^ 30 - 2 \<longrightarrow> q * p * p ^ n \<le> 2 ^ 30 - 2" "2 ^ 30 - 2 < q * p * p ^ n * p"
      using less.hyps [of "q * p" "e + 1"] by blast
    have "q \<le> (2 ^ 30 - 2) div p" using True p by (simp only: int_le_div_iff)
    hence "e_bnd_loop p e q = e_bnd_loop p (e + 1) (q * p)"
      by (subst e_bnd_loop.simps) (simp only: if_True)
    thus ?thesis using n True
      by (intro exI [of _ "Suc n"]) (simp add: mult.assoc)
  next
    case False
    have "\<not> q \<le> (2 ^ 30 - 2) div p" using False p by (simp only: int_le_div_iff not_False_eq_True)
    hence "e_bnd_loop p e q = Some (e, q)"
      by (subst e_bnd_loop.simps) (simp only: if_False)
    thus ?thesis using False by (intro exI [of _ 0]) simp
  qed
qed


lemma e_bnd_loop_start:
  assumes "2 \<le> p"
  shows "\<exists>n. e_bnd_loop p 0 1 = Some (int n, p ^ n) \<and> p ^ n \<le> 2 ^ 30 - 2 \<and> 2 ^ 30 - 2 < p ^ Suc n"
proof -
  obtain n where n: "e_bnd_loop p 0 1 = Some (0 + int n, 1 * p ^ n)"
    "(1::int) \<le> 2 ^ 30 - 2 \<longrightarrow> 1 * p ^ n \<le> 2 ^ 30 - 2" "2 ^ 30 - 2 < 1 * p ^ n * p"
    using e_bnd_loop_returns [OF assms, of 1 0] by blast
  have "(1::int) \<le> 2 ^ 30 - 2" by simp
  thus ?thesis using n by (intro exI [of _ n]) (simp add: mult.commute)
qed

text \<open>The second loop returns the least exponent from its start that passes its test.\<close>

lemma first_e_loop_least:
  "s \<le> first_e_loop p e_bnd f cb s
   \<and> (\<forall>u. s \<le> u \<and> u < first_e_loop p e_bnd f cb s
          \<longrightarrow> u \<le> e_bnd \<and> \<not> start_bound_holds p f cb u)
   \<and> (first_e_loop p e_bnd f cb s \<le> e_bnd
          \<longrightarrow> start_bound_holds p f cb (first_e_loop p e_bnd f cb s))"
proof (induction p e_bnd f cb s rule: first_e_loop.induct)
  case (1 p e_bnd f cb s)
  show ?case
  proof (cases "s \<le> e_bnd \<and> \<not> start_bound_holds p f cb s")
    case True
    have eq: "first_e_loop p e_bnd f cb s = first_e_loop p e_bnd f cb (s + 1)"
      using True by (subst first_e_loop.simps) simp
    have ih: "s + 1 \<le> first_e_loop p e_bnd f cb (s + 1)"
      "\<And>u. s + 1 \<le> u \<Longrightarrow> u < first_e_loop p e_bnd f cb (s + 1)
          \<Longrightarrow> u \<le> e_bnd \<and> \<not> start_bound_holds p f cb u"
      "first_e_loop p e_bnd f cb (s + 1) \<le> e_bnd
          \<Longrightarrow> start_bound_holds p f cb (first_e_loop p e_bnd f cb (s + 1))"
      using 1 [OF True] by blast+
    have "\<And>u. s \<le> u \<Longrightarrow> u < first_e_loop p e_bnd f cb (s + 1)
          \<Longrightarrow> u \<le> e_bnd \<and> \<not> start_bound_holds p f cb u"
    proof -
      fix u assume u: "s \<le> u" "u < first_e_loop p e_bnd f cb (s + 1)"
      show "u \<le> e_bnd \<and> \<not> start_bound_holds p f cb u"
      proof (cases "u = s")
        case True thus ?thesis using \<open>s \<le> e_bnd \<and> _\<close> by simp
      next
        case False thus ?thesis using u ih(2) [of u] by simp
      qed
    qed
    thus ?thesis unfolding eq using ih(1,3) by auto
  next
    case False
    have eq: "first_e_loop p e_bnd f cb s = s"
      using False by (subst first_e_loop.simps) auto
    show ?thesis unfolding eq using False by auto
  qed
qed

text \<open>
  The inner loop stops at the first exponent that passes the test of the bound, if the
  loop condition lets it get there.
\<close>

lemma noise_bound_test:
  "bound_holds (power_long p a) (power_long p u) (2 * p2r + 2) cb = noise_bound_holds p p2r cb a u"
  by (simp only: noise_bound_holds_def)

lemma eTry_loop_first:
  "s \<le> eTry_loop p e_bnd (2 * p2r + 2) cb e e' a (power_long p a) s
   \<and> (\<forall>u. s \<le> u \<and> u < eTry_loop p e_bnd (2 * p2r + 2) cb e e' a (power_long p a) s
          \<longrightarrow> \<not> noise_bound_holds p p2r cb a u)
   \<and> (eTry_loop p e_bnd (2 * p2r + 2) cb e e' a (power_long p a) s \<le> e_bnd
        \<and> eTry_loop p e_bnd (2 * p2r + 2) cb e e' a (power_long p a) s - a < e - e'
          \<longrightarrow> noise_bound_holds p p2r cb a
                (eTry_loop p e_bnd (2 * p2r + 2) cb e e' a (power_long p a) s))"
proof (induction "nat (e_bnd + 1 - s)" arbitrary: s rule: less_induct)
  case less
  let ?t = "\<lambda>s. eTry_loop p e_bnd (2 * p2r + 2) cb e e' a (power_long p a) s"
  show ?case
  proof (cases "s \<le> e_bnd \<and> s - a < e - e'")
    case False
    have eq: "?t s = s" using False by (subst eTry_loop.simps) auto
    show ?thesis unfolding eq using False by auto
  next
    case True
    show ?thesis
    proof (cases "noise_bound_holds p p2r cb a s")
      case holds: True
      have eq: "?t s = s"
        by (subst eTry_loop.simps) (simp only: Let_def noise_bound_test True holds if_True simp_thms)
      show ?thesis unfolding eq using holds by auto
    next
      case fails: False
      have eq: "?t s = ?t (s + 1)"
        by (subst eTry_loop.simps) (simp only: Let_def noise_bound_test True fails if_True if_False simp_thms)
      have "nat (e_bnd + 1 - (s + 1)) < nat (e_bnd + 1 - s)" using True by linarith
      from less.hyps [OF this]
      have ih: "s + 1 \<le> ?t (s + 1)"
        "\<And>u. s + 1 \<le> u \<Longrightarrow> u < ?t (s + 1) \<Longrightarrow> \<not> noise_bound_holds p p2r cb a u"
        "?t (s + 1) \<le> e_bnd \<and> ?t (s + 1) - a < e - e'
           \<Longrightarrow> noise_bound_holds p p2r cb a (?t (s + 1))"
        by blast+
      have "\<And>u. s \<le> u \<Longrightarrow> u < ?t (s + 1) \<Longrightarrow> \<not> noise_bound_holds p p2r cb a u"
      proof -
        fix u assume u: "s \<le> u" "u < ?t (s + 1)"
        show "\<not> noise_bound_holds p p2r cb a u"
        proof (cases "u = s")
          case True thus ?thesis using fails by simp
        next
          case False thus ?thesis using u ih(2) [of u] by simp
        qed
      qed
      thus ?thesis unfolding eq using ih(1,3) by auto
    qed
  qed
qed



lemma ePrimeTry_loop_best:
  assumes "1 \<le> k" and "e' < k"
    and "e' = 0 \<and> e = e0
         \<or> setAE_candidate p p2r r cb e_bnd e' e \<and> e - e' < e0
           \<and> (\<forall>b. max (r + 1) (e' + 1) \<le> b \<and> b < e \<longrightarrow> \<not> noise_bound_holds p p2r cb e' b)"
    and "\<forall>a b. setAE_candidate p p2r r cb e_bnd a b \<and> a < k \<longrightarrow> e - e' \<le> b - a"
    and "\<forall>a b. setAE_candidate p p2r r cb e_bnd a b \<and> a < e' \<longrightarrow> e - e' < b - a"
    and "ePrimeTry_loop p r e_bnd (2 * p2r + 2) cb k (e, e') = (E, E')"
  shows "(E' = 0 \<and> E = e0
          \<or> setAE_candidate p p2r r cb e_bnd E' E \<and> E - E' < e0
            \<and> (\<forall>b. max (r + 1) (E' + 1) \<le> b \<and> b < E \<longrightarrow> \<not> noise_bound_holds p p2r cb E' b))
       \<and> (\<forall>a b. setAE_candidate p p2r r cb e_bnd a b \<longrightarrow> E - E' \<le> b - a)
       \<and> (\<forall>a b. setAE_candidate p p2r r cb e_bnd a b \<and> a < E' \<longrightarrow> E - E' < b - a)"
  using assms
proof (induction "nat (e_bnd + 1 - k)" arbitrary: k e e' rule: less_induct)
  case less
  note start = less.prems(3) and least = less.prems(4) and first = less.prems(5)
  show ?case
  proof (cases "k \<le> e_bnd")
    case False
    have "ePrimeTry_loop p r e_bnd (2 * p2r + 2) cb k (e, e') = (e, e')"
      using False by (subst ePrimeTry_loop.simps) simp
    hence E: "E = e" "E' = e'" using less.prems(6) by simp_all
    have "\<And>a b. setAE_candidate p p2r r cb e_bnd a b \<Longrightarrow> a < k"
      using False by (simp add: setAE_candidate_def)
    hence "\<forall>a b. setAE_candidate p p2r r cb e_bnd a b \<longrightarrow> e - e' \<le> b - a"
      using least by blast
    thus ?thesis unfolding E using start first by blast
  next
    case True
    define s where "s = max (r + 1) (k + 1)"
    define t where "t = eTry_loop p e_bnd (2 * p2r + 2) cb e e' k (power_long p k) s"
    have t: "s \<le> t" "\<And>u. s \<le> u \<Longrightarrow> u < t \<Longrightarrow> \<not> noise_bound_holds p p2r cb k u"
      "t \<le> e_bnd \<and> t - k < e - e' \<Longrightarrow> noise_bound_holds p p2r cb k t"
      using eTry_loop_first [of s p e_bnd p2r cb e e' k] unfolding t_def by blast+
    have eq: "ePrimeTry_loop p r e_bnd (2 * p2r + 2) cb k (e, e')
              = ePrimeTry_loop p r e_bnd (2 * p2r + 2) cb (k + 1)
                  (if t \<le> e_bnd \<and> t - k < e - e' then (t, k) else (e, e'))"
      using True unfolding t_def s_def by (subst ePrimeTry_loop.simps) (simp only: Let_def if_True)
    have m: "nat (e_bnd + 1 - (k + 1)) < nat (e_bnd + 1 - k)" using True by linarith
    have k1: "1 \<le> k + 1" using less.prems(1) by simp
    have diff: "e - e' \<le> e0" using start by auto
    show ?thesis
    proof (cases "t \<le> e_bnd \<and> t - k < e - e'")
      case upd: True
      have run: "ePrimeTry_loop p r e_bnd (2 * p2r + 2) cb (k + 1) (t, k) = (E, E')"
        using less.prems(6) upd unfolding eq by simp
      have cand: "setAE_candidate p p2r r cb e_bnd k t"
        using less.prems(1) True t(1) t(3) [OF upd] upd
        by (simp add: setAE_candidate_def s_def)
      have a1: "k = 0 \<and> t = e0
         \<or> setAE_candidate p p2r r cb e_bnd k t \<and> t - k < e0
           \<and> (\<forall>b. max (r + 1) (k + 1) \<le> b \<and> b < t \<longrightarrow> \<not> noise_bound_holds p p2r cb k b)"
        using cand upd diff t(2) unfolding s_def by auto
      have a2: "\<forall>a b. setAE_candidate p p2r r cb e_bnd a b \<and> a < k + 1 \<longrightarrow> t - k \<le> b - a"
      proof (intro allI impI)
        fix a b assume ab: "setAE_candidate p p2r r cb e_bnd a b \<and> a < k + 1"
        show "t - k \<le> b - a"
        proof (cases "a = k")
          case True
          have "s \<le> b" "noise_bound_holds p p2r cb k b"
            using ab True by (simp_all add: setAE_candidate_def s_def)
          hence "\<not> b < t" using t(2) [of b] by blast
          thus ?thesis using True by simp
        next
          case False
          hence "a < k" using ab by simp
          hence "e - e' \<le> b - a" using least ab by blast
          thus ?thesis using upd by linarith
        qed
      qed
      have a3: "\<forall>a b. setAE_candidate p p2r r cb e_bnd a b \<and> a < k \<longrightarrow> t - k < b - a"
      proof (intro allI impI)
        fix a b assume ab: "setAE_candidate p p2r r cb e_bnd a b \<and> a < k"
        hence "e - e' \<le> b - a" using least by blast
        thus "t - k < b - a" using upd by linarith
      qed
      have "k < k + 1" by simp
      from less.hyps [OF m k1 this a1 a2 a3 run] show ?thesis .
    next
      case keep: False
      have run: "ePrimeTry_loop p r e_bnd (2 * p2r + 2) cb (k + 1) (e, e') = (E, E')"
        using less.prems(6) keep unfolding eq by simp
      have a2: "\<forall>a b. setAE_candidate p p2r r cb e_bnd a b \<and> a < k + 1 \<longrightarrow> e - e' \<le> b - a"
      proof (intro allI impI)
        fix a b assume ab: "setAE_candidate p p2r r cb e_bnd a b \<and> a < k + 1"
        show "e - e' \<le> b - a"
        proof (cases "a = k")
          case True
          have b: "s \<le> b" "b \<le> e_bnd" "noise_bound_holds p p2r cb k b"
            using ab True by (simp_all add: setAE_candidate_def s_def)
          hence nb: "\<not> b < t" using t(2) [of b] by blast
          show ?thesis
          proof (rule ccontr)
            assume "\<not> e - e' \<le> b - a"
            hence "t \<le> e_bnd \<and> t - k < e - e'" using nb b(2) True by linarith
            thus False using keep by simp
          qed
        next
          case False
          hence "a < k" using ab by simp
          thus ?thesis using least ab by blast
        qed
      qed
      have "e' < k + 1" using less.prems(2) by simp
      from less.hyps [OF m k1 this start a2 first run] show ?thesis .
    qed
  qed
qed

text \<open>
  Claim C2, as the code has it. For \<open>p \<ge> 2\<close> the first loop of \<^verbatim>\<open>setAE\<close> ends, and
  \<open>e_bnd\<close> is the largest exponent with \<open>p^e_bnd + 1 < 2^30\<close>. The search starts from
  the pair \<open>(e0, 0)\<close>, where \<open>e0\<close> is the least exponent in \<open>[r + 1, e_bnd]\<close> that passes
  the test \<open>p^e0 \<ge> 2 * (2 * p^r + 2) * coeffBound\<close>; when there is none, the result is the
  \<^verbatim>\<open>RuntimeError\<close> "setAE: cannot find suitable e". Otherwise \<open>e'\<close> ranges over
  \<open>[1, e_bnd]\<close> and, for each \<open>e'\<close>, \<open>e\<close> over \<open>[max (r + 1) (e' + 1), e_bnd]\<close> until the
  test of the bound \<open>p^e \<ge> 2 * (fudge * p^e' + 2 * p^r + 2) * coeffBound\<close> passes. Both
  tests are without strictness and are the ones the code computes, in the arithmetic of
  \<^verbatim>\<open>double\<close>. The pair returned is either the starting pair \<open>(e0, 0)\<close> or a pair of the
  search that passes the test, with the least \<open>e\<close> for its \<open>e'\<close> and a difference
  smaller than \<open>e0\<close>; its difference \<open>e - e'\<close> is the least among all passing pairs of
  the search, and every passing pair with a smaller \<open>e'\<close> has a larger difference. The
  numbers \<open>p^r\<close> and \<open>coeffBound\<close> are the context's \<^verbatim>\<open>getPPowR()\<close> and
  \<^verbatim>\<open>boundForRecryption()\<close>.
\<close>

theorem setAE_least_difference:
  assumes "2 \<le> p"
  shows "\<exists>e_bnd. 0 \<le> e_bnd \<and> power_long p e_bnd + 1 < 2 ^ 30
           \<and> 2 ^ 30 \<le> power_long p (e_bnd + 1) + 1
           \<and> (case setAE p p2r r cb of
                 None \<Rightarrow> False
               | Some (Inl err) \<Rightarrow>
                   err = RuntimeError ''setAE: cannot find suitable e''
                   \<and> (\<forall>u. r + 1 \<le> u \<and> u \<le> e_bnd
                          \<longrightarrow> \<not> start_bound_holds p (2 * p2r + 2) cb u)
               | Some (Inr (e, e')) \<Rightarrow>
                   (\<exists>e0. r + 1 \<le> e0 \<and> e0 \<le> e_bnd
                      \<and> start_bound_holds p (2 * p2r + 2) cb e0
                      \<and> (\<forall>u. r + 1 \<le> u \<and> u < e0
                             \<longrightarrow> \<not> start_bound_holds p (2 * p2r + 2) cb u)
                      \<and> (e' = 0 \<and> e = e0
                          \<or> setAE_candidate p p2r r cb e_bnd e' e \<and> e - e' < e0
                            \<and> (\<forall>b. max (r + 1) (e' + 1) \<le> b \<and> b < e
                                   \<longrightarrow> \<not> noise_bound_holds p p2r cb e' b))
                      \<and> (\<forall>a b. setAE_candidate p p2r r cb e_bnd a b \<longrightarrow> e - e' \<le> b - a)
                      \<and> (\<forall>a b. setAE_candidate p p2r r cb e_bnd a b \<and> a < e'
                               \<longrightarrow> e - e' < b - a)))"
proof -
  obtain n where n: "e_bnd_loop p 0 1 = Some (int n, p ^ n)" "p ^ n \<le> 2 ^ 30 - 2"
    "2 ^ 30 - 2 < p ^ Suc n"
    using e_bnd_loop_start [OF assms] by blast
  define e0 where "e0 = first_e_loop p (int n) (2 * p2r + 2) cb (r + 1)"
  have e0: "r + 1 \<le> e0"
    "\<And>u. r + 1 \<le> u \<Longrightarrow> u < e0
        \<Longrightarrow> u \<le> int n \<and> \<not> start_bound_holds p (2 * p2r + 2) cb u"
    "e0 \<le> int n \<Longrightarrow> start_bound_holds p (2 * p2r + 2) cb e0"
    using first_e_loop_least [of "r + 1" p "int n" "2 * p2r + 2" cb] unfolding e0_def by blast+
  have bnd: "0 \<le> int n" "power_long p (int n) + 1 < 2 ^ 30"
    "2 ^ 30 \<le> power_long p (int n + 1) + 1"
    using n(2,3) by (simp_all add: power_long_def nat_add_distrib)
  have "case setAE p p2r r cb of
          None \<Rightarrow> False
        | Some (Inl err) \<Rightarrow>
            err = RuntimeError ''setAE: cannot find suitable e''
            \<and> (\<forall>u. r + 1 \<le> u \<and> u \<le> int n
                   \<longrightarrow> \<not> start_bound_holds p (2 * p2r + 2) cb u)
        | Some (Inr (e, e')) \<Rightarrow>
            (\<exists>e0. r + 1 \<le> e0 \<and> e0 \<le> int n
               \<and> start_bound_holds p (2 * p2r + 2) cb e0
               \<and> (\<forall>u. r + 1 \<le> u \<and> u < e0
                      \<longrightarrow> \<not> start_bound_holds p (2 * p2r + 2) cb u)
               \<and> (e' = 0 \<and> e = e0
                   \<or> setAE_candidate p p2r r cb (int n) e' e \<and> e - e' < e0
                     \<and> (\<forall>b. max (r + 1) (e' + 1) \<le> b \<and> b < e
                            \<longrightarrow> \<not> noise_bound_holds p p2r cb e' b))
               \<and> (\<forall>a b. setAE_candidate p p2r r cb (int n) a b \<longrightarrow> e - e' \<le> b - a)
               \<and> (\<forall>a b. setAE_candidate p p2r r cb (int n) a b \<and> a < e'
                        \<longrightarrow> e - e' < b - a))"
  proof (cases "int n < e0")
    case True
    have s: "setAE p p2r r cb = Some (Inl (RuntimeError ''setAE: cannot find suitable e''))"
      using True by (simp add: setAE_def n(1) Let_def e0_def)
    have "\<forall>u. r + 1 \<le> u \<and> u \<le> int n
             \<longrightarrow> \<not> start_bound_holds p (2 * p2r + 2) cb u"
      using e0(2) True by auto
    thus ?thesis unfolding s by simp
  next
    case False
    obtain E E' where run: "ePrimeTry_loop p r (int n) (2 * p2r + 2) cb 1 (e0, 0) = (E, E')"
      by (cases "ePrimeTry_loop p r (int n) (2 * p2r + 2) cb 1 (e0, 0)") blast
    have s: "setAE p p2r r cb = Some (Inr (E, E'))"
      using False by (simp add: setAE_def n(1) Let_def e0_def [symmetric] run)
    have none: "\<forall>a b. setAE_candidate p p2r r cb (int n) a b \<and> a < 1 \<longrightarrow> e0 - 0 \<le> b - a"
      by (simp add: setAE_candidate_def)
    have none': "\<forall>a b. setAE_candidate p p2r r cb (int n) a b \<and> a < 0 \<longrightarrow> e0 - 0 < b - a"
      by (simp add: setAE_candidate_def)
    have start: "(0::int) = 0 \<and> e0 = e0
         \<or> setAE_candidate p p2r r cb (int n) 0 e0 \<and> e0 - 0 < e0
           \<and> (\<forall>b. max (r + 1) (0 + 1) \<le> b \<and> b < e0 \<longrightarrow> \<not> noise_bound_holds p p2r cb 0 b)"
      by simp
    have best: "(E' = 0 \<and> E = e0
          \<or> setAE_candidate p p2r r cb (int n) E' E \<and> E - E' < e0
            \<and> (\<forall>b. max (r + 1) (E' + 1) \<le> b \<and> b < E \<longrightarrow> \<not> noise_bound_holds p p2r cb E' b))
       \<and> (\<forall>a b. setAE_candidate p p2r r cb (int n) a b \<longrightarrow> E - E' \<le> b - a)
       \<and> (\<forall>a b. setAE_candidate p p2r r cb (int n) a b \<and> a < E' \<longrightarrow> E - E' < b - a)"
      by (rule ePrimeTry_loop_best [OF _ _ start none none' run]) simp_all
    have "r + 1 \<le> e0 \<and> e0 \<le> int n
            \<and> start_bound_holds p (2 * p2r + 2) cb e0
            \<and> (\<forall>u. r + 1 \<le> u \<and> u < e0
                   \<longrightarrow> \<not> start_bound_holds p (2 * p2r + 2) cb u)"
      using e0 False by auto
    thus ?thesis unfolding s using best by (simp only: option.case sum.case prod.case) blast
  qed
  thus ?thesis using bnd by blast
qed

text \<open>
  For \<open>p = 2\<close>, \<open>r = 1\<close> and the bound \<open>6532133170577037 / 2\<^sup>5\<^sup>3\<close> the result is \<open>e = 5\<close>,
  \<open>e' = 4\<close>, a pair of the search. The test passes at this pair by the rounding of the
  product: the exact value of the right side is above \<open>2\<^sup>5 = 32\<close>.
\<close>

theorem setAE_least_difference_witness:
  "setAE 2 2 1 (6532133170577037 / 2 ^ 53) = Some (Inr (5, 4))
   \<and> setAE_candidate 2 2 1 (6532133170577037 / 2 ^ 53) 29 4 5
   \<and> \<not> 2 * ((1 + 1 / 16\<^sup>2) * 16 + (2 * 2 + 2)) * (6532133170577037 / 2 ^ 53) \<le> (32::real)"
proof -
  have run: "setAE 2 2 1 (6532133170577037 / 2 ^ 53) = Some (Inr (5, 4))"
    by code_simp
  have cand: "setAE_candidate 2 2 1 (6532133170577037 / 2 ^ 53) 29 4 5"
    by code_simp
  have exact: "\<not> 2 * ((1 + 1 / 16\<^sup>2) * 16 + (2 * 2 + 2)) * (6532133170577037 / 2 ^ 53) \<le> (32::real)"
    by simp
  have p: "(2::int) \<le> 2" by simp
  from setAE_least_difference [OF p, of 2 1 "6532133170577037 / 2 ^ 53"] run cand exact
  show ?thesis by (simp only: simp_thms)
qed

text \<open>
  The pair returned need not be one of the search and need not pass the test of the
  bound: for \<open>p = 1031\<close>, \<open>r = 1\<close> and the bound \<open>4119 / 16\<close> the largest exponent is
  \<open>e_bnd = 2\<close>, the only pair of the search, \<open>e' = 1\<close> and \<open>e = 2\<close>, fails the test, and
  \<^verbatim>\<open>setAE\<close> returns its starting pair \<open>e = 2\<close>, \<open>e' = 0\<close>, for which
  \<open>2 * (1 + 2 * 1031 + 2) * 4119 / 16 > 1031\<^sup>2\<close>.
\<close>

theorem setAE_start_pair_counterexample:
  "setAE 1031 1031 1 (4119 / 16) = Some (Inr (2, 0))
   \<and> \<not> noise_bound_holds 1031 1031 (4119 / 16) 0 2"
  by code_simp

section \<open>The parameter search\<close>

text \<open>
  The rounding helpers are exact on the numbers the search meets. The margin
  \<open>0.49999\<close> of \<^verbatim>\<open>ceiling\<close> and \<^verbatim>\<open>flooring\<close> leaves room for a logarithm that is off an
  integer by more than \<open>10\<^sup>-\<^sup>5\<close>, which holds for the logarithms to base 2 of the integers
  below \<open>2\<^sup>1\<^sup>6\<close>.
\<close>

lemma log2_margin: "1 / 100000 < log 2 (1 + 1 / 65536)"
proof -
  have "(2::real) < 1 + real 100000 * (1 / 65536)" by simp
  also have "\<dots> \<le> (1 + 1 / 65536) ^ 100000"
    by (rule Bernoulli_inequality) simp
  finally have "log 2 2 < log 2 ((1 + 1 / 65536) ^ 100000)"
    by (subst log_less_cancel_iff) simp_all
  hence "1 < 100000 * log 2 (1 + 1 / 65536)"
    by (simp add: log_nat_power)
  thus ?thesis by simp
qed

lemma int_less_real_succ:
  fixes k :: int
  assumes "k < 2 ^ N"
  shows "real_of_int k + 1 \<le> 2 ^ N"
proof -
  have "k + 1 \<le> 2 ^ N" using assms by simp
  hence "real_of_int (k + 1) \<le> real_of_int (2 ^ N)" by (simp only: of_int_le_iff)
  thus ?thesis by simp
qed

lemma real_succ_le_int:
  fixes d :: int
  assumes "2 ^ j < d"
  shows "2 ^ j + 1 \<le> real_of_int d"
proof -
  have "2 ^ j + 1 \<le> d" using assms by simp
  hence "real_of_int (2 ^ j + 1) \<le> real_of_int d" by (simp only: of_int_le_iff)
  thus ?thesis by simp
qed

lemma log2_below_power:
  fixes k :: int
  assumes "1 \<le> k" "k < 65536" "k < 2 ^ N"
  shows "log 2 (real_of_int k) + 1 / 100000 < real N"
proof -
  define c :: real where "c = 1 + 1 / 65536"
  have c: "0 < c" by (simp add: c_def)
  have k: "0 < real_of_int k" using assms(1) by simp
  have "real_of_int k * c < real_of_int k + 1"
    using assms(2) by (simp add: c_def algebra_simps)
  also have "\<dots> \<le> 2 ^ N" using assms(3) by (rule int_less_real_succ)
  finally have lt: "real_of_int k * c < 2 ^ N" .
  have "0 < real_of_int k * c" using k c by simp
  hence "log 2 (real_of_int k * c) < log 2 (2 ^ N)"
    using lt by (subst log_less_cancel_iff) simp_all
  moreover have "log 2 (real_of_int k * c) = log 2 (real_of_int k) + log 2 c"
    using k c by (simp add: log_mult)
  moreover have "log 2 ((2::real) ^ N) = real N" by simp
  ultimately have "log 2 (real_of_int k) + log 2 c < real N" by simp
  thus ?thesis using log2_margin unfolding c_def by linarith
qed

lemma log2_above_power:
  fixes d :: int
  assumes "2 ^ j < d" "j \<le> 16"
  shows "real j + 1 / 100000 < log 2 (real_of_int d)"
proof -
  define c :: real where "c = 1 + 1 / 65536"
  have c: "0 < c" by (simp add: c_def)
  have "(2::real) ^ j \<le> 2 ^ 16" using assms(2) by (intro power_increasing) simp_all
  hence "(2::real) ^ j * c \<le> 2 ^ j + 1"
    by (simp add: c_def algebra_simps)
  also have "\<dots> \<le> real_of_int d" using assms(1) by (rule real_succ_le_int)
  finally have le: "(2::real) ^ j * c \<le> real_of_int d" .
  have pos: "0 < (2::real) ^ j * c" using c by simp
  hence "0 < real_of_int d" using le by linarith
  hence "log 2 (2 ^ j * c) \<le> log 2 (real_of_int d)"
    using le pos by (subst log_le_cancel_iff) simp_all
  moreover have "log 2 ((2::real) ^ j * c) = log 2 (2 ^ j) + log 2 c"
    using c by (simp add: log_mult)
  moreover have "log 2 ((2::real) ^ j) = real j" by simp
  ultimately have "real j + log 2 c \<le> log 2 (real_of_int d)" by simp
  thus ?thesis using log2_margin unfolding c_def by linarith
qed


lemma lround_nonneg: "0 \<le> x \<Longrightarrow> lround x = \<lfloor>x + 1 / 2\<rfloor>"
  by (simp add: lround_def)

lemma ceiling_dbl_of_int: "ceiling_dbl (real_of_int n) = n"
proof (cases "0 \<le> real_of_int n + 49999 / 100000")
  case True
  have "\<lfloor>real_of_int n + 49999 / 100000 + 1 / 2\<rfloor> = n" by (rule floor_unique) simp_all
  thus ?thesis using True by (simp only: ceiling_dbl_def lround_def if_True)
next
  case False
  have "\<lceil>real_of_int n + 49999 / 100000 - 1 / 2\<rceil> = n" by (rule ceiling_unique) simp_all
  thus ?thesis using False by (simp only: ceiling_dbl_def lround_def if_False)
qed

lemma ceiling_dbl_log2:
  fixes d :: int
  assumes "1 \<le> d" "d \<le> 65536"
  shows "ceiling_dbl (ln (real_of_int d) / ln 2) = \<lceil>log 2 (real_of_int d)\<rceil>"
proof -
  define L where "L = log 2 (real_of_int d)"
  define c where "c = \<lceil>L\<rceil>"
  have L0: "0 \<le> L" using assms(1) by (simp add: L_def)
  have "real_of_int d \<le> 2 ^ 16" using assms(2) by simp
  hence "L \<le> log 2 (2 ^ 16)" unfolding L_def using assms(1) by (subst log_le_cancel_iff) simp_all
  moreover have "log 2 ((2::real) ^ n) = real n" for n by simp
  from this [of 16] have "log 2 ((2::real) ^ 16) = 16" by simp
  ultimately have L16: "L \<le> 16" by (simp only:)
  have c0: "0 \<le> c" using L0 by (simp add: c_def)
  have c16: "c \<le> 16" using L16 by (simp add: c_def ceiling_le_iff)
  have up: "L \<le> real_of_int c" by (simp add: c_def)
  have low: "real_of_int c \<le> L + 99999 / 100000"
  proof (cases "c = 0")
    case True thus ?thesis using L0 by simp
  next
    case False
    define j where "j = nat (c - 1)"
    have j: "real j = real_of_int c - 1" "j \<le> 16" using False c0 c16 by (simp_all add: j_def)
    have "real_of_int c - 1 < L" unfolding c_def by linarith
    hence "log 2 (2 ^ j) < log 2 (real_of_int d)" using j(1) by (simp add: L_def)
    hence "(2::real) ^ j < real_of_int d" using assms(1) by (subst (asm) log_less_cancel_iff) simp_all
    hence "real_of_int (2 ^ j) < real_of_int d" by simp
    hence "2 ^ j < d" by (simp only: of_int_less_iff)
    from log2_above_power [OF this j(2)] show ?thesis using j(1) by (simp add: L_def)
  qed
  have "ceiling_dbl L = \<lfloor>L + 49999 / 100000 + 1 / 2\<rfloor>"
    using L0 by (simp add: ceiling_dbl_def lround_def)
  also have "\<dots> = c" using up low by (intro floor_unique) simp_all
  finally show ?thesis by (simp add: L_def c_def log_def)
qed

lemma flooring_log2:
  fixes k :: int
  assumes "1 \<le> k" "k < 65536"
  shows "flooring (ln (real_of_int k) / ln 2) = \<lfloor>log 2 (real_of_int k)\<rfloor>"
proof -
  define L where "L = log 2 (real_of_int k)"
  define f where "f = \<lfloor>L\<rfloor>"
  have L0: "0 \<le> L" using assms(1) by (simp add: L_def)
  have f0: "0 \<le> f" using L0 by (simp add: f_def)
  have low: "real_of_int f \<le> L" by (simp add: f_def)
  have "L < real_of_int f + 1" unfolding f_def by linarith
  hence "L < real (nat (f + 1))" using f0 by simp
  hence "log 2 (real_of_int k) < log 2 (2 ^ nat (f + 1))" by (simp add: L_def)
  hence "real_of_int k < 2 ^ nat (f + 1)" using assms(1) by (subst (asm) log_less_cancel_iff) simp_all
  hence "real_of_int k < real_of_int (2 ^ nat (f + 1))" by simp
  hence "k < 2 ^ nat (f + 1)" by (simp only: of_int_less_iff)
  from log2_below_power [OF assms this] have up: "L + 1 / 100000 < real_of_int f + 1"
    using f0 by (simp add: L_def)
  show ?thesis
  proof (cases "0 \<le> L - 49999 / 100000")
    case True
    have "flooring L = \<lfloor>L - 49999 / 100000 + 1 / 2\<rfloor>"
      using True by (simp only: flooring_def lround_def if_True)
    also have "\<dots> = f" using low up by (intro floor_unique) simp_all
    finally show ?thesis by (simp add: L_def f_def log_def)
  next
    case False
    hence "L < 1" by simp
    hence f: "f = 0" using L0 unfolding f_def by (intro floor_unique) simp_all
    have "flooring L = \<lceil>L - 49999 / 100000 - 1 / 2\<rceil>"
      using False by (simp only: flooring_def lround_def if_False)
    also have "\<dots> = 0" using L0 False by (intro ceiling_unique) simp_all
    finally show ?thesis using f by (simp add: L_def f_def log_def)
  qed
qed

lemma ceiling_dbl_div_pow2:
  fixes d :: int
  assumes "0 \<le> d" "m \<le> 16"
  shows "ceiling_dbl (real_of_int d / 2 ^ m) = \<lceil>real_of_int d / 2 ^ m\<rceil>"
proof -
  define x where "x = real_of_int d / 2 ^ m"
  define c where "c = \<lceil>x\<rceil>"
  have x0: "0 \<le> x" using assms(1) by (simp add: x_def)
  have up: "x \<le> real_of_int c" by (simp add: c_def)
  have "real_of_int c < x + 1" unfolding c_def by linarith
  hence "real_of_int c * 2 ^ m < real_of_int d + 2 ^ m"
    by (simp add: x_def field_simps)
  hence "real_of_int (c * 2 ^ m) < real_of_int (d + 2 ^ m)" by simp
  hence "c * 2 ^ m < d + 2 ^ m" by (simp only: of_int_less_iff)
  hence "c * 2 ^ m + 1 \<le> d + 2 ^ m" by simp
  hence "real_of_int (c * 2 ^ m + 1) \<le> real_of_int (d + 2 ^ m)" by (simp only: of_int_le_iff)
  hence "real_of_int c * 2 ^ m + 1 \<le> real_of_int d + 2 ^ m" by simp
  hence "(real_of_int c * 2 ^ m + 1) / 2 ^ m \<le> (real_of_int d + 2 ^ m) / 2 ^ m"
    by (rule divide_right_mono) simp
  moreover have "(real_of_int c * 2 ^ m + 1) / 2 ^ m = real_of_int c + 1 / 2 ^ m"
    by (simp add: add_divide_distrib)
  moreover have "(real_of_int d + 2 ^ m) / 2 ^ m = x + 1"
    by (simp add: add_divide_distrib x_def)
  ultimately have a: "real_of_int c + 1 / 2 ^ m \<le> x + 1" by (simp only:)
  have "(2::real) ^ m \<le> 2 ^ 16" using assms(2) by (intro power_increasing) simp_all
  hence "1 / (2::real) ^ 16 \<le> 1 / 2 ^ m" by (intro divide_left_mono) simp_all
  hence b: "1 / 65536 \<le> 1 / (2::real) ^ m" by simp
  have low: "real_of_int c \<le> x + 99999 / 100000" using a b by linarith
  have "ceiling_dbl x = \<lfloor>x + 49999 / 100000 + 1 / 2\<rfloor>"
    using x0 by (simp add: ceiling_dbl_def lround_def)
  also have "\<dots> = c" using up low by (intro floor_unique) simp_all
  finally show ?thesis by (simp add: x_def c_def)
qed

lemma floor_log2_eq: "1 \<le> k \<Longrightarrow> floor_log2 k = \<lfloor>log 2 (real_of_int k)\<rfloor>"
  by (simp add: floor_log2_def bitlen_alt_def)

lemma ceil_log2_eq:
  assumes "1 \<le> d"
  shows "ceil_log2 d = \<lceil>log 2 (real_of_int d)\<rceil>"
proof -
  have "0 \<le> log 2 (real_of_int d)" using assms by simp
  hence "0 \<le> \<lceil>log 2 (real_of_int d)\<rceil>" by (simp add: le_ceiling_iff)
  thus ?thesis using assms by (simp add: ceil_log2_def ceillog2_def)
qed

lemma floor_log2_bounds:
  assumes "1 \<le> n"
  shows "0 \<le> floor_log2 n" "2 ^ nat (floor_log2 n) \<le> n"
proof -
  have "0 < n" using assms by simp
  from bitlen_bounds [OF this] show "2 ^ nat (floor_log2 n) \<le> n"
    by (simp add: floor_log2_def)
  show "0 \<le> floor_log2 n" using assms by (simp add: floor_log2_eq)
qed

lemma flooring_exact:
  "1 \<le> k \<Longrightarrow> k < 65536 \<Longrightarrow> flooring (ln (real_of_int k) / ln 2) = floor_log2 k"
  by (simp add: flooring_log2 floor_log2_eq)

lemma floorPowerOfTwo_exact:
  assumes "1 \<le> n" "n < 65536"
  shows "floorPowerOfTwo n = 2 ^ nat (floor_log2 n)"
proof -
  have "2 powr real_of_int (floor_log2 n) = 2 powr real (nat (floor_log2 n))"
    using floor_log2_bounds(1) [OF assms(1)] by simp
  also have "\<dots> = 2 ^ nat (floor_log2 n)" by (rule powr_realpow) simp
  also have "\<dots> = real_of_int (2 ^ nat (floor_log2 n))" by simp
  finally have "\<lfloor>2 powr real_of_int (floor_log2 n)\<rfloor> = 2 ^ nat (floor_log2 n)"
    by (simp only: floor_of_int)
  thus ?thesis using assms by (simp only: floorPowerOfTwo_def flooring_exact)
qed

lemma isPowerOfTwo_exact:
  "1 \<le> n \<Longrightarrow> n < 65536 \<Longrightarrow> isPowerOfTwo n = is_power2 n"
  by (simp add: isPowerOfTwo_def is_power2_def floorPowerOfTwo_exact)

lemma ceiling_div_pow2_bounds:
  fixes d :: int
  assumes "1 \<le> d"
  shows "1 \<le> \<lceil>real_of_int d / 2 ^ m\<rceil>" "\<lceil>real_of_int d / 2 ^ m\<rceil> \<le> d"
    "1 \<le> m \<Longrightarrow> d < 65536 \<Longrightarrow> \<lceil>real_of_int d / 2 ^ m\<rceil> \<le> 32768"
proof -
  have pos: "0 < real_of_int d / 2 ^ m" using assms by simp
  thus "1 \<le> \<lceil>real_of_int d / 2 ^ m\<rceil>" by (simp add: ceiling_le_iff less_ceiling_iff)
  have one: "(1::real) \<le> 2 ^ m" by simp
  have "real_of_int d / 2 ^ m \<le> real_of_int d / 1"
    using assms one by (intro divide_left_mono) simp_all
  thus "\<lceil>real_of_int d / 2 ^ m\<rceil> \<le> d" by (simp add: ceiling_le_iff)
  assume m: "1 \<le> m" and d: "d < 65536"
  have "(2::real) ^ 1 \<le> 2 ^ m" using m by (intro power_increasing) simp_all
  hence "real_of_int d / 2 ^ m \<le> real_of_int d / 2"
    using assms by (intro divide_left_mono) simp_all
  also have "\<dots> \<le> 32768" using d by simp
  finally show "\<lceil>real_of_int d / 2 ^ m\<rceil> \<le> 32768" by (simp add: ceiling_le_iff)
qed

text \<open>
  On degrees below \<open>2\<^sup>1\<^sup>6\<close> the loop body of \<^verbatim>\<open>getBestParameters\<close> is the cost model, with
  the quotient of the giant step rounded down.
\<close>

lemma babyStep_exact:
  assumes "1 \<le> d" "d < 65536" "0 \<le> m" "m \<le> 16"
  shows "babyStep lazy all_odd d m = baby_cost lazy all_odd d m"
proof -
  define k where "k = \<lceil>real_of_int d / 2 ^ nat m\<rceil>"
  have ck: "ceiling_dbl (real_of_int d / 2 ^ nat m) = k"
    unfolding k_def using assms by (intro ceiling_dbl_div_pow2) simp_all
  have k: "1 \<le> k" "k \<le> d"
    unfolding k_def using ceiling_div_pow2_bounds(1,2) [OF assms(1)] by blast+
  have fk: "flooring (ln (real_of_int k) / ln 2) = floor_log2 k"
    using k assms(2) by (intro flooring_exact) simp_all
  show ?thesis
  proof (cases "m = 0")
    case True
    show ?thesis
      unfolding babyStep_def baby_cost_def Let_def ck k_def [symmetric]
      by (simp add: True fk)
  next
    case False
    hence m1: "1 \<le> nat m" using assms(3) by simp
    have k2: "k \<le> 32768"
      unfolding k_def using ceiling_div_pow2_bounds(3) [OF assms(1) m1 assms(2)] .
    define ke where "ke = (if k mod 2 = 1 then k + 1 else k)"
    have ke: "2 \<le> ke" "ke \<le> 32769"
    proof -
      show "ke \<le> 32769" using k2 by (simp add: ke_def)
      show "2 \<le> ke"
      proof (cases "k = 1")
        case True thus ?thesis by (simp add: ke_def)
      next
        case False thus ?thesis using k(1) by (simp add: ke_def)
      qed
    qed
    have fp: "floorPowerOfTwo (ke - 1) = 2 ^ nat (floor_log2 (ke - 1))"
      using ke by (intro floorPowerOfTwo_exact) simp_all
    have "1 \<le> ke - 1" using ke by simp
    from floor_log2_bounds(2) [OF this]
    have le: "2 ^ nat (floor_log2 (ke - 1)) \<le> ke - 1" .
    have one: "(1::int) \<le> 2 ^ nat (floor_log2 (ke - 1))" by simp
    have "1 \<le> ke - 2 ^ nat (floor_log2 (ke - 1))" "ke - 2 ^ nat (floor_log2 (ke - 1)) < 65536"
      using one le ke by linarith+
    hence ip: "isPowerOfTwo (ke - 2 ^ nat (floor_log2 (ke - 1)))
                 = is_power2 (ke - 2 ^ nat (floor_log2 (ke - 1)))"
      by (rule isPowerOfTwo_exact)
    have ko: "(if ke mod 4 = 0 \<and> \<not> isPowerOfTwo (ke - floorPowerOfTwo (ke - 1))
               then ke + 2 else ke) = odd_k k"
      unfolding fp ip by (simp add: odd_k_def Let_def ke_def)
    have "odd_k k = ke \<or> odd_k k = ke + 2"
      by (simp add: odd_k_def Let_def ke_def)
    hence "1 \<le> odd_k k - 1" "odd_k k - 1 < 65536" using ke by auto
    hence fo: "flooring (ln (real_of_int (odd_k k - 1)) / ln 2) = floor_log2 (odd_k k - 1)"
      by (rule flooring_exact)
    have fo': "flooring (ln (real_of_int (odd_k k) - 1) / ln 2) = floor_log2 (odd_k k - 1)"
      using fo by simp
    show ?thesis
      unfolding babyStep_def baby_cost_def Let_def ck k_def [symmetric] ke_def [symmetric] ko
      by (simp add: False fo')
  qed
qed

lemma giantStep_exact:
  "giantStep lazy k polynomial = giant_cost (\<lambda>n k. n div k) lazy k (deg polynomial)"
  by (simp add: giantStep_def giant_cost_def ceiling_dbl_of_int Let_def)

lemma foldl_add_sum_list:
  "foldl (\<lambda>(n::int) x. n + f x) a xs = a + sum_list (map f xs)"
  by (induction xs arbitrary: a) simp_all


lemma foldl_max_deg:
  "foldl (\<lambda>d polynomial. max d (deg polynomial)) a polys = Max (insert a (set (map deg polys)))"
proof (induction polys arbitrary: a)
  case Nil
  show ?case by simp
next
  case (Cons f polys)
  have "Max (insert (max a (deg f)) (set (map deg polys)))
          = Max (insert a (insert (deg f) (set (map deg polys))))"
  proof (cases "polys = []")
    case True thus ?thesis by (simp add: max.commute)
  next
    case False
    hence "set (map deg polys) \<noteq> {}" by simp
    thus ?thesis by (simp add: max.assoc)
  qed
  thus ?case using Cons.IH [of "max a (deg f)"] by simp
qed

lemma max_degree:
  assumes "polys \<noteq> []" "\<forall>f\<in>set polys. 1 \<le> deg f \<and> deg f < 65536"
  shows "foldl (\<lambda>d polynomial. max d (deg polynomial)) 0 polys = Max (set (map deg polys))"
    and "1 \<le> Max (set (map deg polys))" and "Max (set (map deg polys)) < 65536"
proof -
  have ne: "set (map deg polys) \<noteq> {}" and fin: "finite (set (map deg polys))"
    using assms(1) by simp_all
  have "Max (set (map deg polys)) \<in> set (map deg polys)" using fin ne by (rule Max_in)
  then obtain f where "f \<in> set polys" "Max (set (map deg polys)) = deg f" by auto
  thus b: "1 \<le> Max (set (map deg polys))" "Max (set (map deg polys)) < 65536"
    using assms(2) by auto
  have "Max (insert 0 (set (map deg polys))) = max 0 (Max (set (map deg polys)))"
    using fin ne by (rule Max_insert)
  thus "foldl (\<lambda>d polynomial. max d (deg polynomial)) 0 polys = Max (set (map deg polys))"
    using b(1) by (simp add: foldl_max_deg)
qed

lemma candidate_exact:
  assumes "1 \<le> d" "d < 65536" "0 \<le> m" "m \<le> 16"
  shows "candidate polys lazy all_odd d m
         = (let (k, baby, variant) = baby_cost lazy all_odd d m
            in (k, baby + sum_list (map (\<lambda>f. giant_cost (\<lambda>n k. n div k) lazy k (deg f)) polys),
                variant))"
  by (simp add: candidate_def babyStep_exact [OF assms] giantStep_exact foldl_add_sum_list
        split: prod.splits)

lemma bestStep_exact:
  assumes d: "d = Max (set (map deg polys))" and "1 \<le> d" "d < 65536" "0 \<le> m" "m \<le> 16"
  shows "bestStep polys lazy (areOddPolynomials polys) d best m
         = (if PS_multiplications best = - 1
               \<or> PS_multiplications (cost_model (\<lambda>n k. n div k) polys lazy m)
                   < PS_multiplications best
            then cost_model (\<lambda>n k. n div k) polys lazy m else best)"
proof -
  obtain k baby variant where bc: "baby_cost lazy (areOddPolynomials polys) d m = (k, baby, variant)"
    by (cases "baby_cost lazy (areOddPolynomials polys) d m") blast
  have c: "candidate polys lazy (areOddPolynomials polys) d m
           = (k, baby + sum_list (map (\<lambda>f. giant_cost (\<lambda>n k. n div k) lazy k (deg f)) polys),
              variant)"
    unfolding candidate_exact [OF assms(2-5)] bc by simp
  have m: "cost_model (\<lambda>n k. n div k) polys lazy m
           = \<lparr>PS_m = m, PS_k = k,
              PS_multiplications
                = baby + sum_list (map (\<lambda>f. giant_cost (\<lambda>n k. n div k) lazy k (deg f)) polys),
              PS_odd = variant\<rparr>"
    unfolding cost_model_def d [symmetric] bc by simp
  show ?thesis unfolding bestStep_def c m by simp
qed

lemma foldl_cong_set:
  "(\<And>a x. x \<in> set xs \<Longrightarrow> f a x = g a x) \<Longrightarrow> foldl f a xs = foldl g a xs"
  by (induction xs arbitrary: a) simp_all

lemma ceil_log2_le_16:
  assumes "1 \<le> d" "d < 65536"
  shows "ceil_log2 d \<le> 16"
proof -
  have "real_of_int d \<le> 2 powr 16" using assms(2) by simp
  hence "log 2 (real_of_int d) \<le> 16" using assms(1) by (subst log_le_iff) simp_all
  thus ?thesis using assms(1) by (simp add: ceil_log2_eq ceiling_le_iff)
qed

lemma getBestParameters_search:
  assumes "polys \<noteq> []" "\<forall>f\<in>set polys. 1 \<le> deg f \<and> deg f < 65536"
  shows "getBestParameters polys lazy
         = Inr (search (cost_model (\<lambda>n k. n div k) polys lazy)
                  [0..ceil_log2 (Max (set (map deg polys)))])"
proof -
  define d where "d = Max (set (map deg polys))"
  note md = max_degree [OF assms, folded d_def]
  have ok: "\<not> list_ex (\<lambda>polynomial. deg polynomial = - 1 \<or> deg polynomial = 0) polys"
    using assms(2) by (auto simp: list_ex_iff)
  have M: "ceiling_dbl (ln (real_of_int d) / ln 2) = ceil_log2 d"
    using md(2,3) by (simp add: ceiling_dbl_log2 ceil_log2_eq)
  have M16: "ceil_log2 d \<le> 16" using md(2,3) by (rule ceil_log2_le_16)
  have "foldl (bestStep polys lazy (areOddPolynomials polys) d)
          \<lparr>PS_m = 0, PS_k = 0, PS_multiplications = - 1, PS_odd = False\<rparr> [0..ceil_log2 d]
        = search (cost_model (\<lambda>n k. n div k) polys lazy) [0..ceil_log2 d]"
    unfolding search_def
  proof (rule foldl_cong_set)
    fix best m assume "m \<in> set [0..ceil_log2 d]"
    hence m: "0 \<le> m" "m \<le> 16" using M16 by simp_all
    show "bestStep polys lazy (areOddPolynomials polys) d best m
          = (if PS_multiplications best = - 1
                \<or> PS_multiplications (cost_model (\<lambda>n k. n div k) polys lazy m)
                    < PS_multiplications best
             then cost_model (\<lambda>n k. n div k) polys lazy m else best)"
      using d_def md(2,3) m by (rule bestStep_exact)
  qed
  moreover have "d \<noteq> 0" using md(2) by simp
  ultimately show ?thesis
    unfolding getBestParameters_def Let_def md(1) M using ok by (simp add: d_def)
qed

text \<open>
  The search returns the parameters of one of its candidates; when no candidate has
  \<open>-1\<close> multiplications, it is the first one with the least number of multiplications.
\<close>

lemma search_snoc:
  "search c (ms @ [m])
   = (if PS_multiplications (search c ms) = - 1
         \<or> PS_multiplications (c m) < PS_multiplications (search c ms)
      then c m else search c ms)"
  by (simp add: search_def)

lemma search_first_minimum:
  "\<exists>m. 0 \<le> m \<and> m \<le> int n \<and> search c [0..int n] = c m
       \<and> ((\<forall>m'. 0 \<le> m' \<and> m' \<le> int n \<longrightarrow> PS_multiplications (c m') \<noteq> - 1)
            \<longrightarrow> (\<forall>m'. 0 \<le> m' \<and> m' \<le> int n
                       \<longrightarrow> PS_multiplications (c m) \<le> PS_multiplications (c m'))
              \<and> (\<forall>m'. 0 \<le> m' \<and> m' < m
                       \<longrightarrow> PS_multiplications (c m) < PS_multiplications (c m')))"
proof (induction n)
  case 0
  have "[0..(0::int)] = [0]" by (simp add: upto_rec1)
  hence "search c [0..int 0] = c 0" by (simp add: search_def)
  thus ?case by (intro exI [of _ 0]) auto
next
  case (Suc n)
  then obtain m where m: "0 \<le> m" "m \<le> int n" "search c [0..int n] = c m"
    and best: "(\<forall>m'. 0 \<le> m' \<and> m' \<le> int n \<longrightarrow> PS_multiplications (c m') \<noteq> - 1)
       \<Longrightarrow> (\<forall>m'. 0 \<le> m' \<and> m' \<le> int n
                       \<longrightarrow> PS_multiplications (c m) \<le> PS_multiplications (c m'))
              \<and> (\<forall>m'. 0 \<le> m' \<and> m' < m
                       \<longrightarrow> PS_multiplications (c m) < PS_multiplications (c m'))"
    by blast
  define x where "x = int (Suc n)"
  have up: "[0..x] = [0..int n] @ [x]"
    unfolding x_def using upto_rec2 [of 0 "int (Suc n)"] by simp
  have step: "search c [0..x]
        = (if PS_multiplications (c m) = - 1
              \<or> PS_multiplications (c x) < PS_multiplications (c m)
           then c x else c m)"
    unfolding up search_snoc m(3) ..
  have x: "0 \<le> x" "int n < x" "\<And>m'. m' \<le> x \<longleftrightarrow> m' \<le> int n \<or> m' = x"
    unfolding x_def by auto
  show ?case
  proof (cases "PS_multiplications (c m) = - 1
                  \<or> PS_multiplications (c x) < PS_multiplications (c m)")
    case True
    hence r: "search c [0..x] = c x" unfolding step by simp
    have "(\<forall>m'. 0 \<le> m' \<and> m' \<le> x \<longrightarrow> PS_multiplications (c m') \<noteq> - 1)
            \<longrightarrow> (\<forall>m'. 0 \<le> m' \<and> m' \<le> x
                       \<longrightarrow> PS_multiplications (c x) \<le> PS_multiplications (c m'))
              \<and> (\<forall>m'. 0 \<le> m' \<and> m' < x
                       \<longrightarrow> PS_multiplications (c x) < PS_multiplications (c m'))"
    proof (intro impI)
      assume ns: "\<forall>m'. 0 \<le> m' \<and> m' \<le> x \<longrightarrow> PS_multiplications (c m') \<noteq> - 1"
      have "\<forall>m'. 0 \<le> m' \<and> m' \<le> int n \<longrightarrow> PS_multiplications (c m') \<noteq> - 1"
        using ns x(3) by blast
      from best [OF this] have b: "\<And>m'. 0 \<le> m' \<Longrightarrow> m' \<le> int n
                       \<Longrightarrow> PS_multiplications (c m) \<le> PS_multiplications (c m')"
        by blast
      have "PS_multiplications (c m) \<noteq> - 1" using ns m(1,2) x(3) by blast
      hence lt: "PS_multiplications (c x) < PS_multiplications (c m)" using True by blast
      have early: "PS_multiplications (c x) < PS_multiplications (c m')"
        if "0 \<le> m'" "m' < x" for m'
      proof -
        have "m' \<le> int n" using that(2) unfolding x_def by simp
        from b [OF that(1) this] show ?thesis using lt by linarith
      qed
      have "PS_multiplications (c x) \<le> PS_multiplications (c m')" if "0 \<le> m'" "m' \<le> x" for m'
      proof (cases "m' = x")
        case True thus ?thesis by simp
      next
        case False
        hence "m' < x" using that(2) by simp
        from early [OF that(1) this] show ?thesis by simp
      qed
      thus "(\<forall>m'. 0 \<le> m' \<and> m' \<le> x
                       \<longrightarrow> PS_multiplications (c x) \<le> PS_multiplications (c m'))
              \<and> (\<forall>m'. 0 \<le> m' \<and> m' < x
                       \<longrightarrow> PS_multiplications (c x) < PS_multiplications (c m'))"
        using early by blast
    qed
    thus ?thesis unfolding x_def [symmetric] r using x(1) by (intro exI [of _ x]) simp
  next
    case False
    hence r: "search c [0..x] = c m" unfolding step by simp
    have "(\<forall>m'. 0 \<le> m' \<and> m' \<le> x \<longrightarrow> PS_multiplications (c m') \<noteq> - 1)
            \<longrightarrow> (\<forall>m'. 0 \<le> m' \<and> m' \<le> x
                       \<longrightarrow> PS_multiplications (c m) \<le> PS_multiplications (c m'))
              \<and> (\<forall>m'. 0 \<le> m' \<and> m' < m
                       \<longrightarrow> PS_multiplications (c m) < PS_multiplications (c m'))"
    proof (intro impI)
      assume ns: "\<forall>m'. 0 \<le> m' \<and> m' \<le> x \<longrightarrow> PS_multiplications (c m') \<noteq> - 1"
      have "\<forall>m'. 0 \<le> m' \<and> m' \<le> int n \<longrightarrow> PS_multiplications (c m') \<noteq> - 1"
        using ns x(3) by blast
      from best [OF this] have b: "\<And>m'. 0 \<le> m' \<Longrightarrow> m' \<le> int n
                       \<Longrightarrow> PS_multiplications (c m) \<le> PS_multiplications (c m')"
        "\<forall>m'. 0 \<le> m' \<and> m' < m \<longrightarrow> PS_multiplications (c m) < PS_multiplications (c m')"
        by blast+
      have le: "PS_multiplications (c m) \<le> PS_multiplications (c x)" using False by simp
      have "PS_multiplications (c m) \<le> PS_multiplications (c m')" if "0 \<le> m'" "m' \<le> x" for m'
        using that b(1) [of m'] x(3) [of m'] le by auto
      thus "(\<forall>m'. 0 \<le> m' \<and> m' \<le> x
                       \<longrightarrow> PS_multiplications (c m) \<le> PS_multiplications (c m'))
              \<and> (\<forall>m'. 0 \<le> m' \<and> m' < m
                       \<longrightarrow> PS_multiplications (c m) < PS_multiplications (c m'))"
        using b(2) by blast
    qed
    thus ?thesis unfolding x_def [symmetric] r using m(1,2) x(2)
      by (intro exI [of _ m]) simp
  qed
qed

text \<open>
  Claim C6, as the code has it. For a non-empty list of polynomials of degrees from 1
  to \<open>2\<^sup>1\<^sup>6 - 1\<close> with maximal degree \<open>d\<close>, \<^verbatim>\<open>getBestParameters\<close> goes through \<open>m\<close> from 0
  to \<open>\<lceil>log\<^sub>2 d\<rceil>\<close> and returns the result of the search over the cost model:
  \<open>k = \<lceil>d / 2^m\<rceil>\<close>; the baby step costs \<open>m - 1\<close> for \<open>k = 1\<close> and \<open>\<lfloor>(k - 1) / 2\<rfloor> + m\<close>
  otherwise under the lazy flag, and without it \<open>k - 1\<close> for \<open>m = 0\<close> and \<open>k + m - 2\<close> for
  \<open>m > 0\<close>, unless all polynomials are odd and the variant for odd polynomials is
  cheaper, which costs \<open>\<lfloor>k / 2\<rfloor> + \<lfloor>log\<^sub>2 k\<rfloor>\<close> for \<open>m = 0\<close> and
  \<open>k' / 2 + \<lfloor>log\<^sub>2 (k' - 1)\<rfloor> + m - 1\<close> with the even \<open>k' = odd_k k\<close> in the place of \<open>k\<close>
  for \<open>m > 0\<close>; each polynomial adds the quotient of its degree by \<open>k\<close> minus one, plus
  one under the lazy flag unless the remainder of the degree modulo \<open>k\<close> is nonzero and
  at most \<open>\<lfloor>(k + 1) / 2\<rfloor>\<close>. The quotient is the integer quotient that the source
  computes, which is the exact one where \<open>k\<close> divides the degree. The parameters
  returned are those of the cost model for one \<open>m\<close> of the range; when no candidate
  counts \<open>-1\<close> multiplications, it is the first \<open>m\<close> with the least count.
\<close>

theorem getBestParameters_cost_model:
  assumes "polys \<noteq> []" and "\<forall>f\<in>set polys. 1 \<le> deg f \<and> deg f < 65536"
  shows "ceil_log2 (Max (set (map deg polys)))
           = \<lceil>log 2 (real_of_int (Max (set (map deg polys))))\<rceil>
         \<and> getBestParameters polys lazy
             = Inr (search (cost_model (\<lambda>n k. n div k) polys lazy)
                      [0..ceil_log2 (Max (set (map deg polys)))])
         \<and> (\<exists>m. 0 \<le> m \<and> m \<le> ceil_log2 (Max (set (map deg polys)))
                \<and> getBestParameters polys lazy = Inr (cost_model (\<lambda>n k. n div k) polys lazy m)
                \<and> ((\<forall>m'. 0 \<le> m' \<and> m' \<le> ceil_log2 (Max (set (map deg polys)))
                          \<longrightarrow> PS_multiplications (cost_model (\<lambda>n k. n div k) polys lazy m')
                                \<noteq> - 1)
                     \<longrightarrow> (\<forall>m'. 0 \<le> m' \<and> m' \<le> ceil_log2 (Max (set (map deg polys)))
                                \<longrightarrow> PS_multiplications (cost_model (\<lambda>n k. n div k) polys lazy m)
                                    \<le> PS_multiplications
                                          (cost_model (\<lambda>n k. n div k) polys lazy m'))
                       \<and> (\<forall>m'. 0 \<le> m' \<and> m' < m
                                \<longrightarrow> PS_multiplications (cost_model (\<lambda>n k. n div k) polys lazy m)
                                    < PS_multiplications
                                          (cost_model (\<lambda>n k. n div k) polys lazy m'))))"
proof -
  define M where "M = ceil_log2 (Max (set (map deg polys)))"
  define c where "c = cost_model (\<lambda>n k. n div k) polys lazy"
  have M: "M = int (nat M)" by (simp add: M_def ceil_log2_def)
  have run: "getBestParameters polys lazy = Inr (search c [0..M])"
    using getBestParameters_search [OF assms, of lazy] by (simp only: c_def M_def)
  have lg: "M = \<lceil>log 2 (real_of_int (Max (set (map deg polys))))\<rceil>"
    unfolding M_def using max_degree(2) [OF assms] by (rule ceil_log2_eq)
  obtain m where m: "0 \<le> m" "m \<le> int (nat M)" "search c [0..int (nat M)] = c m"
    "(\<forall>m'. 0 \<le> m' \<and> m' \<le> int (nat M) \<longrightarrow> PS_multiplications (c m') \<noteq> - 1)
       \<longrightarrow> (\<forall>m'. 0 \<le> m' \<and> m' \<le> int (nat M)
                  \<longrightarrow> PS_multiplications (c m) \<le> PS_multiplications (c m'))
         \<and> (\<forall>m'. 0 \<le> m' \<and> m' < m
                  \<longrightarrow> PS_multiplications (c m) < PS_multiplications (c m'))"
    using search_first_minimum [of "nat M" c] by blast
  have best: "0 \<le> m \<and> m \<le> M \<and> getBestParameters polys lazy = Inr (c m)
       \<and> ((\<forall>m'. 0 \<le> m' \<and> m' \<le> M \<longrightarrow> PS_multiplications (c m') \<noteq> - 1)
            \<longrightarrow> (\<forall>m'. 0 \<le> m' \<and> m' \<le> M
                       \<longrightarrow> PS_multiplications (c m) \<le> PS_multiplications (c m'))
              \<and> (\<forall>m'. 0 \<le> m' \<and> m' < m
                       \<longrightarrow> PS_multiplications (c m) < PS_multiplications (c m')))"
    using m run unfolding M [symmetric] by simp
  show ?thesis
    unfolding M_def [symmetric] c_def [symmetric] using lg run best by blast
qed

text \<open>
  For the polynomial \<open>1 + 2 x\<^sup>2 + 3 x\<^sup>1\<^sup>2\<close> without the lazy flag the counts for
  \<open>m = 0, \<dots>, 4\<close> are 11, 6, 6, 8 and 14, and the result is \<open>m = 1\<close>, \<open>k = 6\<close>.
\<close>

theorem getBestParameters_cost_model_witness:
  "getBestParameters [[1, 0, 2, 0, 0, 0, 0, 0, 0, 0, 0, 0, 3]] False
     = Inr \<lparr>PS_m = 1, PS_k = 6, PS_multiplications = 6, PS_odd = False\<rparr>"
proof -
  let ?polys = "[[1, 0, 2, 0, 0, 0, 0, 0, 0, 0, 0, 0, 3]] :: int list list"
  have ne: "?polys \<noteq> []" by simp
  have dg: "\<forall>f\<in>set ?polys. 1 \<le> deg f \<and> deg f < 65536"
    by (simp add: deg_def normalize_ZZX_def)
  have run: "search (cost_model (\<lambda>n k. n div k) ?polys False)
               [0..ceil_log2 (Max (set (map deg ?polys)))]
             = \<lparr>PS_m = 1, PS_k = 6, PS_multiplications = 6, PS_odd = False\<rparr>"
    by code_simp
  from getBestParameters_cost_model [OF ne dg, of False]
  have "getBestParameters ?polys False
          = Inr (search (cost_model (\<lambda>n k. n div k) ?polys False)
                   [0..ceil_log2 (Max (set (map deg ?polys)))])"
    by blast
  thus ?thesis by (simp only: run)
qed

text \<open>
  The count is not the one of the claim: for the polynomial \<open>x\<^sup>1\<^sup>6\<close> without the lazy
  flag the claimed counts for \<open>m = 0, \<dots>, 4\<close> are 15, 8, 6, 8 and 15, and
  \<^verbatim>\<open>getBestParameters\<close> returns \<open>m = 2\<close>, \<open>k = 4\<close> with 7 multiplications, the baby step
  being counted as \<open>k + m - 2 = 4\<close>.
\<close>

theorem claimed_count_counterexample:
  "getBestParameters [[0, 0, 0, 0, 0, 0, 0, 0, 0, 0, 0, 0, 0, 0, 0, 0, 1]] False
     = Inr \<lparr>PS_m = 2, PS_k = 4, PS_multiplications = 7, PS_odd = False\<rparr>
   \<and> map (claimed_count [[0, 0, 0, 0, 0, 0, 0, 0, 0, 0, 0, 0, 0, 0, 0, 0, 1]] False) [0..4]
     = [15, 8, 6, 8, 15]"
proof -
  let ?polys = "[[0, 0, 0, 0, 0, 0, 0, 0, 0, 0, 0, 0, 0, 0, 0, 0, 1]] :: int list list"
  have ne: "?polys \<noteq> []" by simp
  have dg: "\<forall>f\<in>set ?polys. 1 \<le> deg f \<and> deg f < 65536"
    by (simp add: deg_def normalize_ZZX_def)
  have run: "search (cost_model (\<lambda>n k. n div k) ?polys False)
               [0..ceil_log2 (Max (set (map deg ?polys)))]
             = \<lparr>PS_m = 2, PS_k = 4, PS_multiplications = 7, PS_odd = False\<rparr>"
    by code_simp
  have claimed: "map (claimed_count ?polys False) [0..4] = [15, 8, 6, 8, 15]"
    by code_simp
  show ?thesis
    by (simp only: getBestParameters_search [OF ne dg] run claimed simp_thms)
qed

end
